theory Spec2Isabelle
  imports Complex_Main "HOL-Library.AList"
begin

section \<open>The animation scheduler of some-utils (Animation module)\<close>

text \<open>
  The module keeps its state in module-level variables: the clock (\<open>time\<close>, \<open>timeOld\<close>,
  \<open>deltaTime\<close>, \<open>frame\<close>), the instance counter \<open>count\<close>, three sets of instances
  (\<open>animations\<close>, \<open>newAnimations\<close>, \<open>destroyedAnimations\<close>), four callback maps, the
  flag \<open>updating\<close> and two target maps. The model threads one record holding all of them
  through every function.

  Modelling choices.
  \<^item> JavaScript numbers are modelled by \<open>real\<close> (no rounding, no NaN); the default
    duration \<open>Infinity\<close> is a constructor of its own.
  \<^item> An \<open>AnimationInstance\<close> object is identified by its \<open>id\<close> (\<open>count++\<close>); the objects
    live in \<open>heap\<close>.
  \<^item> A JavaScript \<open>Set\<close> is a duplicate-free list in insertion order; a \<open>Map\<close> from
    instances to sets is an association list.
  \<^item> A callback is a value of type \<open>cb\<close>. User code is a closure \<open>User n body brk\<close>:
    an identity tag \<open>n\<close>, a straight-line body of calls to the module's API and the
    flag saying whether the closure returns \<open>BREAK\<close>. The closures the module creates
    itself are the \<open>resolve\<close> function of a promise, the clean-up closure of
    \<open>AnimationMap.set\<close> and the default callback of \<open>duringWithTarget\<close>. Listener
    registration, the promise-returning methods and the assignment of \<open>timeScale\<close> are
    calls of the top level only (type \<open>op\<close>), not of callback bodies: a callback
    body never grows a set of callbacks that is being iterated, and never writes the
    timing fields of an instance.
  \<^item> The frame callback of \<open>tween\<close> writes the target object, which is no part of the
    scheduler's state; it is modelled on its own, as a function of the instance and
    the target.
  \<^item> \<open>trace\<close> is instrumentation: it records every advance of an instance and every
    callback invocation, in order. No function of the model reads it.
\<close>

subsection \<open>Data\<close>

type_synonym aid = nat
type_synonym target = nat

datatype dur = Finite real | Infinity

record AnimationInstance =
  startTime :: real
  startFrame :: nat
  timeScale :: real
  paused :: bool
  time :: real
  timeOld :: real
  deltaTime :: real
  duration :: dur
  destroyed :: bool
  frame :: nat

datatype TimingParam =
    TObject real "real option" "bool option"
  | TArray real "real option" "bool option"
  | TNumber real

datatype mapname = LoopMap | DuringMap

datatype cb =
    User nat "action list" bool
  | Resolve nat
  | MapCleanup nat mapname target aid
  | DefaultCb nat
and action =
    Destroy aid
  | SetPaused aid bool
  | Loop cb
  | During TimingParam "cb option"
  | LoopWithTarget target cb
  | LoopCancelTarget target
  | DuringWithTarget target TimingParam "cb option"
  | DuringCancelTarget target

datatype kind = OnFrame | OnNextFrame | OnComplete | OnDestroy | Immediate

datatype event = Advance aid | Call kind aid cb

type_synonym CallbackMap = "(aid \<times> cb list) list"

record state =
  clock_time :: real
  clock_timeOld :: real
  clock_deltaTime :: real
  clock_frame :: nat
  count :: nat
  heap :: "aid \<Rightarrow> AnimationInstance"
  animations :: "aid list"
  newAnimations :: "aid list"
  destroyedAnimations :: "aid list"
  destroyCallbacks :: CallbackMap
  completeCallbacks :: CallbackMap
  frameCallbacks :: CallbackMap
  nextFrameCallbacks :: CallbackMap
  updating :: bool
  loopMap :: "target \<rightharpoonup> aid"
  duringMap :: "target \<rightharpoonup> aid"
  closures :: nat
  trace :: "event list"

definition init :: state where
  "init = \<lparr> clock_time = 0, clock_timeOld = 0, clock_deltaTime = 0, clock_frame = 0,
     count = 0,
     heap = (\<lambda>_. \<lparr> startTime = 0, startFrame = 0, timeScale = 1, paused = False, time = 0,
       timeOld = 0, deltaTime = 0, duration = Infinity, destroyed = False, frame = 0 \<rparr>),
     animations = [], newAnimations = [], destroyedAnimations = [],
     destroyCallbacks = [], completeCallbacks = [], frameCallbacks = [],
     nextFrameCallbacks = [],
     updating = False, loopMap = Map.empty, duringMap = Map.empty,
     closures = 0, trace = [] \<rparr>"

subsection \<open>Helpers: clamp, lerp, sets, callback maps\<close>

definition clamp :: "real \<Rightarrow> real \<Rightarrow> real \<Rightarrow> real" where
  "clamp x mn mx = (if x < mn then mn else if x > mx then mx else x)"

definition lerp :: "real \<Rightarrow> real \<Rightarrow> real \<Rightarrow> real" where
  "lerp a b t = a + (b - a) * t"

text \<open>\<open>Set.prototype.add\<close>: an element already present keeps its place.\<close>

definition set_add :: "'a list \<Rightarrow> 'a \<Rightarrow> 'a list" where
  "set_add xs x = (if x \<in> set xs then xs else xs @ [x])"

text \<open>\<open>CallbackMap.add\<close> and \<open>CallbackMap.getAndDelete\<close>.\<close>

definition cbm_get :: "CallbackMap \<Rightarrow> aid \<Rightarrow> cb list option" where
  "cbm_get m a = map_of m a"

definition cbm_add :: "CallbackMap \<Rightarrow> aid \<Rightarrow> cb \<Rightarrow> CallbackMap" where
  "cbm_add m a c =
     (case cbm_get m a of
        Some cs \<Rightarrow> AList.update a (set_add cs c) m
      | None \<Rightarrow> AList.update a (set_add [] c) m)"

definition cbm_delete :: "CallbackMap \<Rightarrow> aid \<Rightarrow> CallbackMap" where
  "cbm_delete m a = AList.delete a m"

definition getAndDelete :: "CallbackMap \<Rightarrow> aid \<Rightarrow> cb list option \<times> CallbackMap" where
  "getAndDelete m a =
     (case cbm_get m a of
        Some cs \<Rightarrow> (Some cs, cbm_delete m a)
      | None \<Rightarrow> (None, m))"

text \<open>\<open>x ?? nothing\<close>: a missing set is iterated as the empty iterator.\<close>

definition or_nothing :: "cb list option \<Rightarrow> cb list" where
  "or_nothing r = (case r of Some cs \<Rightarrow> cs | None \<Rightarrow> [])"

subsection \<open>The instance: getters and methods\<close>

definition complete :: "AnimationInstance \<Rightarrow> bool" where
  "complete a = (case duration a of Finite d \<Rightarrow> time a \<ge> d | Infinity \<Rightarrow> False)"

text \<open>
  \<open>progress = clamp(time / duration, 0, 1)\<close>. Division by \<open>Infinity\<close> gives zero; a zero
  duration gives an infinite quotient, which the clamp brings back to 0 or 1, except
  for \<open>0 / 0\<close>, which is NaN (\<open>None\<close>).
\<close>

definition progress :: "AnimationInstance \<Rightarrow> real option" where
  "progress a =
     (case duration a of
        Infinity \<Rightarrow> Some 0
      | Finite d \<Rightarrow>
          if d \<noteq> 0 then Some (clamp (time a / d) 0 1)
          else if time a > 0 then Some 1
          else if time a < 0 then Some 0
          else None)"

definition upd :: "aid \<Rightarrow> (AnimationInstance \<Rightarrow> AnimationInstance) \<Rightarrow> state \<Rightarrow> state" where
  "upd a f s = s\<lparr> heap := (heap s)(a := f (heap s a)) \<rparr>"

definition destroy :: "aid \<Rightarrow> state \<Rightarrow> state" where
  "destroy a s =
     (if destroyed (heap s a) = False
      then upd a (\<lambda>i. i\<lparr> destroyed := True \<rparr>)
             (s\<lparr> destroyedAnimations := set_add (destroyedAnimations s) a \<rparr>)
      else s)"

definition onFrame :: "aid \<Rightarrow> cb option \<Rightarrow> state \<Rightarrow> state" where
  "onFrame a c s =
     (case c of
        Some f \<Rightarrow> if destroyed (heap s a) = False
                   then s\<lparr> frameCallbacks := cbm_add (frameCallbacks s) a f \<rparr> else s
      | None \<Rightarrow> s)"

definition onComplete :: "aid \<Rightarrow> cb option \<Rightarrow> state \<Rightarrow> state" where
  "onComplete a c s =
     (case c of
        Some f \<Rightarrow> if destroyed (heap s a) = False
                   then s\<lparr> completeCallbacks := cbm_add (completeCallbacks s) a f \<rparr> else s
      | None \<Rightarrow> s)"

definition onDestroy :: "aid \<Rightarrow> cb option \<Rightarrow> state \<Rightarrow> state" where
  "onDestroy a c s =
     (case c of
        Some f \<Rightarrow> if destroyed (heap s a) = False
                   then s\<lparr> destroyCallbacks := cbm_add (destroyCallbacks s) a f \<rparr> else s
      | None \<Rightarrow> s)"

text \<open>
  The three promise-returning methods. The result is \<open>None\<close> for JavaScript's \<open>null\<close>
  and \<open>Some p\<close> for a new promise whose \<open>resolve\<close> function is \<open>Resolve p\<close>.
\<close>

definition waitDestroy :: "aid \<Rightarrow> state \<Rightarrow> nat option \<times> state" where
  "waitDestroy a s =
     (if destroyed (heap s a) then (None, s)
      else (Some (closures s),
            s\<lparr> destroyCallbacks := cbm_add (destroyCallbacks s) a (Resolve (closures s)),
               closures := Suc (closures s) \<rparr>))"

definition waitCompletion :: "aid \<Rightarrow> state \<Rightarrow> nat option \<times> state" where
  "waitCompletion a s =
     (if destroyed (heap s a) \<or> complete (heap s a) then (None, s)
      else (Some (closures s),
            s\<lparr> completeCallbacks := cbm_add (completeCallbacks s) a (Resolve (closures s)),
               closures := Suc (closures s) \<rparr>))"

definition nextFrame :: "aid \<Rightarrow> state \<Rightarrow> nat option \<times> state" where
  "nextFrame a s =
     (if destroyed (heap s a) then (None, s)
      else (Some (closures s),
            s\<lparr> nextFrameCallbacks := cbm_add (nextFrameCallbacks s) a (Resolve (closures s)),
               closures := Suc (closures s) \<rparr>))"

definition addAnimation :: "aid \<Rightarrow> state \<Rightarrow> state" where
  "addAnimation a s =
     (if updating s then s\<lparr> newAnimations := set_add (newAnimations s) a \<rparr>
      else s\<lparr> animations := set_add (animations s) a \<rparr>)"

text \<open>The constructor: field initialisers, \<open>onFrame(cb)\<close>, \<open>addAnimation(this)\<close>.\<close>

definition new_AnimationInstance :: "cb option \<Rightarrow> state \<Rightarrow> aid \<times> state" where
  "new_AnimationInstance c s =
     (let a = count s;
          s1 = s\<lparr> count := Suc (count s),
                  heap := (heap s)(a := \<lparr> startTime = clock_time s, startFrame = clock_frame s,
                    timeScale = 1, paused = False, time = 0, timeOld = 0, deltaTime = 0,
                    duration = Infinity, destroyed = False, frame = 0 \<rparr>) \<rparr>
      in (a, addAnimation a (onFrame a c s1)))"

subsection \<open>The target maps\<close>

definition get_map :: "mapname \<Rightarrow> state \<Rightarrow> (target \<rightharpoonup> aid)" where
  "get_map m s = (case m of LoopMap \<Rightarrow> loopMap s | DuringMap \<Rightarrow> duringMap s)"

definition put_map :: "mapname \<Rightarrow> (target \<rightharpoonup> aid) \<Rightarrow> state \<Rightarrow> state" where
  "put_map m f s = (case m of LoopMap \<Rightarrow> s\<lparr> loopMap := f \<rparr> | DuringMap \<Rightarrow> s\<lparr> duringMap := f \<rparr>)"

text \<open>
  \<open>AnimationMap.set\<close>: destroy the previous occupant, store the new one, and give the
  new one a destroy callback that removes the entry if it still points to it.
\<close>

definition AnimationMap_set :: "mapname \<Rightarrow> target \<Rightarrow> aid \<Rightarrow> state \<Rightarrow> state" where
  "AnimationMap_set m t a s =
     (let s1 = (case get_map m s t of Some old \<Rightarrow> destroy old s | None \<Rightarrow> s);
          s2 = put_map m ((get_map m s1)(t \<mapsto> a)) s1;
          s3 = s2\<lparr> closures := Suc (closures s2) \<rparr>
      in onDestroy a (Some (MapCleanup (closures s2) m t a)) s3)"

definition cancelTarget :: "mapname \<Rightarrow> target \<Rightarrow> state \<Rightarrow> state" where
  "cancelTarget m t s = (case get_map m s t of Some a \<Rightarrow> destroy a s | None \<Rightarrow> s)"

subsection \<open>Timing parameters\<close>

definition fromTimingParam :: "TimingParam \<Rightarrow> real \<times> real option \<times> bool option" where
  "fromTimingParam p =
     (case p of
        TNumber d \<Rightarrow> (d, Some 0, None)
      | TArray d dl im \<Rightarrow> (d, dl, im)
      | TObject d dl im \<Rightarrow> (d, dl, im))"

definition timing_delay :: "TimingParam \<Rightarrow> real" where
  "timing_delay p = (case fromTimingParam p of (d, dl, im) \<Rightarrow> (case dl of Some x \<Rightarrow> x | None \<Rightarrow> 0))"

definition timing_immediate :: "TimingParam \<Rightarrow> bool" where
  "timing_immediate p =
     (case fromTimingParam p of (d, dl, im) \<Rightarrow> (case im of Some x \<Rightarrow> x | None \<Rightarrow> False))"

definition timing_duration :: "TimingParam \<Rightarrow> real" where
  "timing_duration p = (case fromTimingParam p of (d, dl, im) \<Rightarrow> d)"

text \<open>The part of \<open>during\<close> before the \<open>immediate\<close> call.\<close>

definition during_create :: "TimingParam \<Rightarrow> cb option \<Rightarrow> state \<Rightarrow> aid \<times> state" where
  "during_create p c s =
     (case new_AnimationInstance c s of
        (a, s1) \<Rightarrow>
          (a, upd a (\<lambda>i. i\<lparr> duration := Finite (timing_duration p),
                             time := - timing_delay p \<rparr>) s1))"

definition log_call :: "kind \<Rightarrow> aid \<Rightarrow> cb \<Rightarrow> state \<Rightarrow> state" where
  "log_call k a c s = s\<lparr> trace := trace s @ [Call k a c] \<rparr>"

text \<open>An API call of a callback body can only name an instance that exists.\<close>

fun action_ok :: "nat \<Rightarrow> action \<Rightarrow> bool" where
  "action_ok n (Destroy a) = (a < n)"
| "action_ok n (SetPaused a v) = (a < n)"
| "action_ok n _ = True"

subsection \<open>Running callbacks\<close>

fun runCb :: "cb \<Rightarrow> state \<Rightarrow> state \<times> bool"
  and runActions :: "action list \<Rightarrow> state \<Rightarrow> state"
  and runAction :: "action \<Rightarrow> state \<Rightarrow> state"
where
  "runCb (User n body brk) s = (runActions body s, brk)"
| "runCb (Resolve p) s = (s, False)"
| "runCb (MapCleanup n m t a) s =
     (if get_map m s t = Some a then put_map m ((get_map m s)(t := None)) s else s, False)"
| "runCb (DefaultCb n) s = (s, False)"
| "runActions [] s = s"
| "runActions (x # xs) s =
     runActions xs (if action_ok (count s) x then runAction x s else s)"
| "runAction (Destroy a) s = destroy a s"
| "runAction (SetPaused a v) s = upd a (\<lambda>i. i\<lparr> paused := v \<rparr>) s"
| "runAction (Loop c) s = snd (new_AnimationInstance (Some c) s)"
| "runAction (During p None) s = snd (during_create p None s)"
| "runAction (During p (Some c)) s =
     (case during_create p (Some c) s of
        (a, s1) \<Rightarrow> if timing_immediate p then fst (runCb c (log_call Immediate a c s1)) else s1)"
| "runAction (LoopWithTarget t c) s =
     (case new_AnimationInstance (Some c) s of (a, s1) \<Rightarrow> AnimationMap_set LoopMap t a s1)"
| "runAction (LoopCancelTarget t) s = cancelTarget LoopMap t s"
| "runAction (DuringWithTarget t p None) s =
     (let c = DefaultCb (closures s); s0 = s\<lparr> closures := Suc (closures s) \<rparr>
      in case during_create p (Some c) s0 of
           (a, s1) \<Rightarrow>
             AnimationMap_set DuringMap t a
               (if timing_immediate p then log_call Immediate a c s1 else s1))"
| "runAction (DuringWithTarget t p (Some c)) s =
     (case during_create p (Some c) s of
        (a, s1) \<Rightarrow>
          AnimationMap_set DuringMap t a
            (if timing_immediate p then fst (runCb c (log_call Immediate a c s1)) else s1))"
| "runAction (DuringCancelTarget t) s = cancelTarget DuringMap t s"



subsection \<open>The scheduler\<close>

fun runCbs :: "kind \<Rightarrow> aid \<Rightarrow> cb list \<Rightarrow> state \<times> bool \<Rightarrow> state \<times> bool" where
  "runCbs k a [] (s, done) = (s, done)"
| "runCbs k a (c # cs) (s, done) =
     (case runCb c (log_call k a c s) of (s1, r) \<Rightarrow> runCbs k a cs (s1, r \<or> done))"

definition updateAnimation :: "aid \<Rightarrow> state \<Rightarrow> state" where
  "updateAnimation a s =
     (let s1 = upd a (\<lambda>i. i\<lparr> timeOld := time i,
                            deltaTime := clock_deltaTime s * timeScale i,
                            time := time i + clock_deltaTime s * timeScale i \<rparr>)
                (s\<lparr> trace := trace s @ [Advance a] \<rparr>)
      in if time (heap s1 a) \<ge> 0 then
           (let s2 = upd a (\<lambda>i. i\<lparr> frame := frame i + 1 \<rparr>) s1 in
            case runCbs OnFrame a (or_nothing (cbm_get (frameCallbacks s2) a)) (s2, False) of
              (s3, done1) \<Rightarrow>
                (case getAndDelete (nextFrameCallbacks s3) a of
                   (cs, m) \<Rightarrow>
                     (case runCbs OnNextFrame a (or_nothing cs)
                             (s3\<lparr> nextFrameCallbacks := m \<rparr>, done1) of
                        (s4, done2) \<Rightarrow>
                          (let s5 = (if complete (heap s4 a)
                                     then fst (runCbs OnComplete a
                                            (or_nothing (cbm_get (completeCallbacks s4) a))
                                            (s4, False))
                                     else s4)
                           in if done2 \<or> complete (heap s5 a) then destroy a s5 else s5))))
         else s1)"

definition destroyAnimation :: "aid \<Rightarrow> state \<Rightarrow> state" where
  "destroyAnimation a s =
     (let s1 = s\<lparr> animations := removeAll a (animations s),
                  frameCallbacks := cbm_delete (frameCallbacks s) a,
                  nextFrameCallbacks := cbm_delete (nextFrameCallbacks s) a \<rparr>
      in case getAndDelete (destroyCallbacks s1) a of
           (Some cs, m) \<Rightarrow> fst (runCbs OnDestroy a cs (s1\<lparr> destroyCallbacks := m \<rparr>, False))
         | (None, m) \<Rightarrow> s1)"

fun is_user :: "cb \<Rightarrow> bool" where
  "is_user (User n body brk) = True"
| "is_user _ = False"

definition users :: "CallbackMap \<Rightarrow> nat" where
  "users m = sum_list (map (\<lambda>(k, cs). length (filter is_user cs)) m)"

lemma users_delete_le: "users (AList.delete a m) \<le> users m"
  by (induction m) (auto simp: users_def)

lemma users_delete_less:
  "map_of m a = Some cs \<Longrightarrow> c \<in> set cs \<Longrightarrow> is_user c \<Longrightarrow> users (AList.delete a m) < users m"
proof (induction m)
  case Nil
  then show ?case by simp
next
  case (Cons p m)
  obtain k ds where p: "p = (k, ds)" by (cases p)
  show ?case
  proof (cases "k = a")
    case True
    with Cons.prems p have "ds = cs" by simp
    with Cons.prems have "0 < length (filter is_user ds)"
      by (auto simp: filter_empty_conv)
    moreover have "users (AList.delete a m) \<le> users m" by (rule users_delete_le)
    ultimately show ?thesis using p True
      by (simp add: users_def del: length_greater_0_conv)
  next
    case False
    with Cons p show ?thesis by (simp add: users_def)
  qed
qed

lemma users_update_gen:
  "length (filter is_user v) = length (filter is_user (or_nothing (map_of m a))) \<Longrightarrow>
   users (AList.update a v m) = users m"
  by (induction m) (auto simp: users_def or_nothing_def)

lemma users_update:
  "\<not> is_user c \<Longrightarrow> users (AList.update a (set_add (or_nothing (map_of m a)) c) m) = users m"
  by (rule users_update_gen) (simp add: set_add_def)

lemma users_cbm_add: "\<not> is_user c \<Longrightarrow> users (cbm_add m a c) = users m"
  using users_update [of c a m]
  by (auto simp: cbm_add_def cbm_get_def or_nothing_def split: option.splits)

lemma count_simps [simp]:
  "count (upd a f s) = count s"
  "count (destroy a s) = count s"
  "count (onFrame a c s) = count s"
  "count (onDestroy a c s) = count s"
  "count (addAnimation a s) = count s"
  "count (log_call k a cb s) = count s"
  "count (put_map m g s) = count s"
  by (auto simp: upd_def destroy_def onFrame_def onDestroy_def addAnimation_def log_call_def
      put_map_def split: option.splits mapname.splits)

lemma new_AnimationInstance_fst [simp]: "fst (new_AnimationInstance c s) = count s"
  by (simp add: new_AnimationInstance_def Let_def)

lemma new_AnimationInstance_count [simp]:
  "count (snd (new_AnimationInstance c s)) = Suc (count s)"
  by (simp add: new_AnimationInstance_def Let_def)

lemma during_create_fst [simp]: "fst (during_create p c s) = count s"
  by (simp add: during_create_def split: prod.splits)
    (metis fst_conv new_AnimationInstance_fst)

lemma during_create_count [simp]: "count (snd (during_create p c s)) = Suc (count s)"
  by (simp add: during_create_def split: prod.splits)
    (metis snd_conv new_AnimationInstance_count)

lemma count_AnimationMap_set [simp]: "count (AnimationMap_set m t a s) = count s"
  by (simp add: AnimationMap_set_def Let_def split: option.splits)

lemma count_cancelTarget [simp]: "count (cancelTarget m t s) = count s"
  by (simp add: cancelTarget_def split: option.splits)

lemma during_create_eq:
  "during_create p c s = (a, s1) \<Longrightarrow> a = count s \<and> count s1 = Suc (count s)"
  using during_create_fst [of p c s] during_create_count [of p c s] by simp

lemma new_AnimationInstance_eq:
  "new_AnimationInstance c s = (a, s1) \<Longrightarrow> a = count s \<and> count s1 = Suc (count s)"
  using new_AnimationInstance_fst [of c s] new_AnimationInstance_count [of c s] by simp

lemma count_mono:
  "count s \<le> count (fst (runCb c s))"
  "count s \<le> count (runActions xs s)"
  "count s \<le> count (runAction x s)"
proof (induction c s and xs s and x s rule: runCb_runActions_runAction.induct)
  case (6 x xs s)
  then show ?case by (auto intro: order_trans)
next
  case (11 p c s)
  obtain a s1 where d: "during_create p (Some c) s = (a, s1)" by fastforce
  note a = during_create_eq [OF d]
  show ?case
  proof (cases "timing_immediate p")
    case True
    from 11 [OF d [symmetric] True] a d True show ?thesis by simp
  next
    case False
    with a d show ?thesis by simp
  qed
next
  case (15 t p c s)
  obtain a s1 where d: "during_create p (Some c) s = (a, s1)" by fastforce
  note a = during_create_eq [OF d]
  show ?case
  proof (cases "timing_immediate p")
    case True
    from 15 [OF d [symmetric] True] a d True show ?thesis by simp
  next
    case False
    with a d show ?thesis by simp
  qed
qed (auto split: prod.splits dest!: during_create_eq new_AnimationInstance_eq simp: Let_def)

lemma run_rel:
  fixes R :: "state \<Rightarrow> state \<Rightarrow> bool"
  assumes rf: "\<And>s. R s s"
    and tr: "\<And>s t u. R s t \<Longrightarrow> R t u \<Longrightarrow> R s u"
    and cleanup: "\<And>m t s. R s (put_map m ((get_map m s)(t := None)) s)"
    and dest: "\<And>a s. a < count s \<Longrightarrow> R s (destroy a s)"
    and pause: "\<And>a v s. a < count s \<Longrightarrow> R s (upd a (\<lambda>i. i\<lparr> paused := v \<rparr>) s)"
    and new: "\<And>c s. R s (snd (new_AnimationInstance c s))"
    and dcreate: "\<And>p c s. R s (snd (during_create p c s))"
    and lg: "\<And>a c s. a < count s \<Longrightarrow> R s (log_call Immediate a c s)"
    and mset: "\<And>m t a s. a < count s \<Longrightarrow> R s (AnimationMap_set m t a s)"
    and cancel: "\<And>m t s. R s (cancelTarget m t s)"
    and clos: "\<And>s. R s (s\<lparr> closures := Suc (closures s) \<rparr>)"
  shows "R s (fst (runCb c s))" and "R s (runActions xs s)"
    and "action_ok (count s) x \<Longrightarrow> R s (runAction x s)"
proof (induction c s and xs s and x s rule: runCb_runActions_runAction.induct)
  case (1 n body brk s)
  then show ?case by simp
next
  case (2 p s)
  show ?case by (simp add: rf)
next
  case (3 n m t a s)
  show ?case by (simp add: rf cleanup)
next
  case (4 n s)
  show ?case by (simp add: rf)
next
  case (5 s)
  show ?case by (simp add: rf)
next
  case (6 x xs s)
  show ?case
  proof (cases "action_ok (count s) x")
    case True
    with 6 have "R s (runAction x s)" "R (runAction x s) (runActions xs (runAction x s))"
      by simp_all
    then show ?thesis using True tr by auto
  next
    case False
    with 6 show ?thesis by simp
  qed
next
  case (7 a s)
  then show ?case by (simp add: dest)
next
  case (8 a v s)
  then show ?case by (simp add: pause)
next
  case (9 c s)
  show ?case by (simp add: new)
next
  case (10 p s)
  show ?case by (simp add: dcreate)
next
  case (11 p c s)
  obtain a s1 where d: "during_create p (Some c) s = (a, s1)" by fastforce
  have a: "a = count s" "count s1 = Suc (count s)"
    using during_create_fst [of p "Some c" s] during_create_count [of p "Some c" s] d by simp_all
  have r1: "R s s1" using dcreate [of s p "Some c"] d by simp
  show ?case
  proof (cases "timing_immediate p")
    case True
    have "R s1 (log_call Immediate a c s1)" using a by (simp add: lg)
    moreover have "R (log_call Immediate a c s1) (fst (runCb c (log_call Immediate a c s1)))"
      using 11(1) [OF d [symmetric] True] .
    ultimately show ?thesis using r1 d True tr by auto
  next
    case False
    then show ?thesis using r1 d by simp
  qed
next
  case (12 t c s)
  obtain a s1 where d: "new_AnimationInstance (Some c) s = (a, s1)" by fastforce
  have a: "a = count s" "count s1 = Suc (count s)"
    using new_AnimationInstance_fst [of "Some c" s] new_AnimationInstance_count [of "Some c" s] d
    by simp_all
  have r1: "R s s1" using new [of s "Some c"] d by simp
  have "R s1 (AnimationMap_set LoopMap t a s1)" using a by (simp add: mset)
  then show ?case using r1 d tr by auto
next
  case (13 t s)
  show ?case by (simp add: cancel)
next
  case (14 t p s)
  define c where "c = DefaultCb (closures s)"
  define s0 where "s0 = s\<lparr> closures := Suc (closures s) \<rparr>"
  obtain a s1 where d: "during_create p (Some c) s0 = (a, s1)" by fastforce
  have a: "a = count s0" "count s1 = Suc (count s0)"
    using during_create_fst [of p "Some c" s0] during_create_count [of p "Some c" s0] d
    by simp_all
  have r0: "R s s0" unfolding s0_def by (rule clos)
  have r1: "R s0 s1" using dcreate [of s0 p "Some c"] d by simp
  define s2 where "s2 = (if timing_immediate p then log_call Immediate a c s1 else s1)"
  have r2: "R s1 s2" unfolding s2_def using a by (simp add: lg rf)
  have c2: "a < count s2" unfolding s2_def using a by simp
  have r3: "R s2 (AnimationMap_set DuringMap t a s2)" using c2 by (rule mset)
  have "runAction (DuringWithTarget t p None) s = AnimationMap_set DuringMap t a s2"
    using d by (simp add: Let_def c_def s0_def s2_def)
  then show ?case using r0 r1 r2 r3 tr by metis
next
  case (15 t p c s)
  obtain a s1 where d: "during_create p (Some c) s = (a, s1)" by fastforce
  have a: "a = count s" "count s1 = Suc (count s)"
    using during_create_fst [of p "Some c" s] during_create_count [of p "Some c" s] d by simp_all
  have r1: "R s s1" using dcreate [of s p "Some c"] d by simp
  define s2 where
    "s2 = (if timing_immediate p then fst (runCb c (log_call Immediate a c s1)) else s1)"
  have r2: "R s1 s2"
  proof (cases "timing_immediate p")
    case True
    have "R s1 (log_call Immediate a c s1)" using a by (simp add: lg)
    moreover have "R (log_call Immediate a c s1) (fst (runCb c (log_call Immediate a c s1)))"
      using 15(1) [OF d [symmetric] True] .
    ultimately show ?thesis using True tr by (auto simp: s2_def)
  next
    case False
    then show ?thesis by (simp add: s2_def rf)
  qed
  have "count s1 \<le> count s2"
    unfolding s2_def using count_mono(1) [of "log_call Immediate a c s1" c] by simp
  then have c2: "a < count s2" using a by simp
  have r3: "R s2 (AnimationMap_set DuringMap t a s2)" using c2 by (rule mset)
  have "runAction (DuringWithTarget t p (Some c)) s = AnimationMap_set DuringMap t a s2"
    using d by (simp add: s2_def)
  then show ?case using r1 r2 r3 tr by metis
next
  case (16 t s)
  show ?case by (simp add: cancel)
qed


lemma destroyCallbacks_simps [simp]:
  "destroyCallbacks (upd a f s) = destroyCallbacks s"
  "destroyCallbacks (destroy a s) = destroyCallbacks s"
  "destroyCallbacks (onFrame a c s) = destroyCallbacks s"
  "destroyCallbacks (addAnimation a s) = destroyCallbacks s"
  "destroyCallbacks (log_call k a cb s) = destroyCallbacks s"
  "destroyCallbacks (put_map m g s) = destroyCallbacks s"
  "destroyCallbacks (snd (new_AnimationInstance c s)) = destroyCallbacks s"
  "destroyCallbacks (snd (during_create p c s)) = destroyCallbacks s"
  "destroyCallbacks (cancelTarget m t s) = destroyCallbacks s"
  by (auto simp: upd_def destroy_def onFrame_def addAnimation_def log_call_def
      put_map_def new_AnimationInstance_def during_create_def cancelTarget_def Let_def
      split: option.splits mapname.splits prod.splits)

lemma users_AnimationMap_set:
  "users (destroyCallbacks (AnimationMap_set m t a s)) = users (destroyCallbacks s)"
  by (auto simp: AnimationMap_set_def Let_def onDestroy_def users_cbm_add split: option.splits)

lemma users_run:
  "users (destroyCallbacks (fst (runCb c s))) = users (destroyCallbacks s)"
  "users (destroyCallbacks (runActions xs s)) = users (destroyCallbacks s)"
  "action_ok (count s) x \<Longrightarrow>
   users (destroyCallbacks (runAction x s)) = users (destroyCallbacks s)"
  by (rule run_rel [where R = "\<lambda>s s'. users (destroyCallbacks s') = users (destroyCallbacks s)"];
      simp add: users_AnimationMap_set)+

lemma runCbs_rel:
  fixes R :: "state \<Rightarrow> state \<Rightarrow> bool"
  assumes rf: "\<And>s. R s s"
    and tr: "\<And>s t u. R s t \<Longrightarrow> R t u \<Longrightarrow> R s u"
    and lg: "\<And>c s. c \<in> set cs \<Longrightarrow> R s (log_call k a c s)"
    and cb: "\<And>c s. c \<in> set cs \<Longrightarrow> R s (fst (runCb c s))"
  shows "R s (fst (runCbs k a cs (s, d)))"
  using lg cb
proof (induction cs arbitrary: s d)
  case Nil
  show ?case by (simp add: rf)
next
  case (Cons c cs)
  obtain s1 r where r: "runCb c (log_call k a c s) = (s1, r)" by fastforce
  have "R s (log_call k a c s)" using Cons.prems(1) by simp
  moreover have "R (log_call k a c s) s1"
    using Cons.prems(2) [of c "log_call k a c s"] r by simp
  moreover have "R s1 (fst (runCbs k a cs (s1, r \<or> d)))"
    using Cons.IH Cons.prems by simp
  ultimately show ?case using r tr by (auto simp del: runCb.simps)
qed

lemma users_runCbs:
  "users (destroyCallbacks (fst (runCbs k a cs (s, d)))) = users (destroyCallbacks s)"
  by (rule runCbs_rel [where R = "\<lambda>s s'. users (destroyCallbacks s') = users (destroyCallbacks s)"];
      simp add: users_run)

lemma destroyedAnimations_not_user:
  "\<not> is_user c \<Longrightarrow> destroyedAnimations (fst (runCb c s)) = destroyedAnimations s"
  by (cases c) (auto simp: put_map_def split: mapname.splits)

lemma destroyedAnimations_runCbs_not_user:
  assumes "\<forall>c \<in> set cs. \<not> is_user c"
  shows "destroyedAnimations (fst (runCbs k a cs (s, d))) = destroyedAnimations s"
  by (rule runCbs_rel [where R = "\<lambda>s s'. destroyedAnimations s' = destroyedAnimations s"])
    (use assms in \<open>auto simp: destroyedAnimations_not_user log_call_def\<close>)

lemma destroyAnimation_measure:
  "users (destroyCallbacks (destroyAnimation a s)) < users (destroyCallbacks s) \<or>
   users (destroyCallbacks (destroyAnimation a s)) = users (destroyCallbacks s) \<and>
   destroyedAnimations (destroyAnimation a s) = destroyedAnimations s"
proof (cases "map_of (destroyCallbacks s) a")
  case None
  then show ?thesis
    by (simp add: destroyAnimation_def getAndDelete_def cbm_get_def)
next
  case (Some cs)
  define s1 where "s1 = s\<lparr> animations := removeAll a (animations s),
      frameCallbacks := cbm_delete (frameCallbacks s) a,
      nextFrameCallbacks := cbm_delete (nextFrameCallbacks s) a,
      destroyCallbacks := cbm_delete (destroyCallbacks s) a \<rparr>"
  have d: "destroyAnimation a s = fst (runCbs OnDestroy a cs (s1, False))"
    using Some by (simp add: destroyAnimation_def getAndDelete_def cbm_get_def s1_def)
  have u: "users (destroyCallbacks (destroyAnimation a s)) =
      users (AList.delete a (destroyCallbacks s))"
    by (simp add: d users_runCbs) (simp add: s1_def cbm_delete_def)
  show ?thesis
  proof (cases "\<exists>c \<in> set cs. is_user c")
    case True
    then show ?thesis using users_delete_less [OF Some] u by auto
  next
    case False
    then have "destroyedAnimations (destroyAnimation a s) = destroyedAnimations s1"
      by (simp add: d destroyedAnimations_runCbs_not_user)
    then show ?thesis using u users_delete_le [of a "destroyCallbacks s"]
      by (auto simp: s1_def)
  qed
qed

text \<open>
  The destroy pass iterates a JavaScript \<open>Set\<close> that destroy callbacks may grow while
  it is iterated: the iterator visits the elements added meanwhile.
\<close>

function destroyLoop :: "nat \<Rightarrow> state \<Rightarrow> state" where
  "destroyLoop i s =
     (if i < length (destroyedAnimations s)
      then destroyLoop (Suc i) (destroyAnimation (destroyedAnimations s ! i) s)
      else s)"
  by pat_completeness auto
termination
proof (relation "measures [\<lambda>(i, s). users (destroyCallbacks s),
    \<lambda>(i, s). length (destroyedAnimations s) - i]")
  show "wf (measures [\<lambda>(i, s). users (destroyCallbacks s),
    \<lambda>(i, s). length (destroyedAnimations s) - i])" by simp
next
  fix i :: nat and s :: state
  assume "i < length (destroyedAnimations s)"
  then show "((Suc i, destroyAnimation (destroyedAnimations s ! i) s), (i, s))
    \<in> measures [\<lambda>(i, s). users (destroyCallbacks s),
    \<lambda>(i, s). length (destroyedAnimations s) - i]"
    using destroyAnimation_measure [of "destroyedAnimations s ! i" s] by auto
qed

definition visit :: "aid \<Rightarrow> state \<Rightarrow> state" where
  "visit a s =
     (if destroyed (heap s a) = False \<and> paused (heap s a) = False
      then updateAnimation a s else s)"

definition updateAnimations :: "state \<Rightarrow> state" where
  "updateAnimations s =
     (let s1 = s\<lparr> updating := True \<rparr>;
          s2 = fold visit (animations s1) s1;
          s3 = destroyLoop 0 s2;
          s4 = s3\<lparr> destroyedAnimations := [] \<rparr>;
          s5 = s4\<lparr> animations := fold (\<lambda>a xs. set_add xs a) (newAnimations s4) (animations s4) \<rparr>
      in s5\<lparr> updating := False \<rparr>)"

definition innerLoop :: "real \<Rightarrow> state \<Rightarrow> state" where
  "innerLoop ms s =
     updateAnimations
       (s\<lparr> clock_timeOld := clock_time s,
          clock_time := ms / 1000,
          clock_deltaTime := ms / 1000 - clock_time s,
          clock_frame := clock_frame s + 1 \<rparr>)"

datatype op =
    Tick real
  | Do action
  | CallOnFrame aid cb
  | CallOnComplete aid cb
  | CallOnDestroy aid cb
  | CallNextFrame aid
  | CallWaitDestroy aid
  | CallWaitCompletion aid
  | SetTimeScale aid real

fun op_ok :: "nat \<Rightarrow> op \<Rightarrow> bool" where
  "op_ok n (Tick ms) = True"
| "op_ok n (Do x) = action_ok n x"
| "op_ok n (CallOnFrame a c) = (a < n)"
| "op_ok n (CallOnComplete a c) = (a < n)"
| "op_ok n (CallOnDestroy a c) = (a < n)"
| "op_ok n (CallNextFrame a) = (a < n)"
| "op_ok n (CallWaitDestroy a) = (a < n)"
| "op_ok n (CallWaitCompletion a) = (a < n)"
| "op_ok n (SetTimeScale a x) = (a < n)"

fun exec :: "op \<Rightarrow> state \<Rightarrow> state" where
  "exec (Tick ms) s = innerLoop ms s"
| "exec (Do x) s = runAction x s"
| "exec (CallOnFrame a c) s = onFrame a (Some c) s"
| "exec (CallOnComplete a c) s = onComplete a (Some c) s"
| "exec (CallOnDestroy a c) s = onDestroy a (Some c) s"
| "exec (CallNextFrame a) s = snd (nextFrame a s)"
| "exec (CallWaitDestroy a) s = snd (waitDestroy a s)"
| "exec (CallWaitCompletion a) s = snd (waitCompletion a s)"
| "exec (SetTimeScale a x) s = upd a (\<lambda>i. i\<lparr> timeScale := x \<rparr>) s"

fun run :: "op list \<Rightarrow> state \<Rightarrow> state" where
  "run [] s = s"
| "run (x # xs) s = run xs (if op_ok (count s) x then exec x s else s)"



declare destroyLoop.simps [simp del]

subsection \<open>Easing and the tween's interpolation step\<close>

text \<open>
  The \<open>easing\<close> table. In \<open>out2 .. out6\<close> the assignment expression \<open>(x = 1 - x)\<close>
  rebinds \<open>x\<close> before the remaining factors are read.
\<close>

definition easing :: "string \<rightharpoonup> (real \<Rightarrow> real)" where
  "easing = map_of
     [(''in2'', \<lambda>x. x * x),
      (''in3'', \<lambda>x. x * x * x),
      (''in4'', \<lambda>x. x * x * x * x),
      (''in5'', \<lambda>x. x * x * x * x * x),
      (''in6'', \<lambda>x. x * x * x * x * x * x),
      (''out2'', \<lambda>x. let x = 1 - x in 1 - x * x),
      (''out3'', \<lambda>x. let x = 1 - x in 1 - x * x * x),
      (''out4'', \<lambda>x. let x = 1 - x in 1 - x * x * x * x),
      (''out5'', \<lambda>x. let x = 1 - x in 1 - x * x * x * x * x),
      (''out6'', \<lambda>x. let x = 1 - x in 1 - x * x * x * x * x * x)]"

text \<open>
  The argument of \<open>safeEase\<close> at run time: a string, a function, or anything else
  (\<open>undefined\<close> when the parameter is omitted).
\<close>

datatype ease_arg = EaseString string | EaseFunction "real \<Rightarrow> real" | EaseOther

text \<open>
  \<open>easing\<close> is an object literal, so the member access \<open>easing[ease]\<close> follows the
  prototype chain: for a string that is no key of the table it finds what the table
  inherits from \<open>Object.prototype\<close>, and is \<open>undefined\<close> only when that has no such
  member either. \<open>Object_prototype\<close> lists the members that the language puts there
  (all of them functions, except the accessor \<open>__proto__\<close>, which yields the prototype
  object); none of them is an easing function or the identity.
\<close>

definition Object_prototype :: "string list" where
  "Object_prototype =
     [''constructor'', ''hasOwnProperty'', ''isPrototypeOf'', ''propertyIsEnumerable'',
      ''toLocaleString'', ''toString'', ''valueOf'', ''__defineGetter__'',
      ''__defineSetter__'', ''__lookupGetter__'', ''__lookupSetter__'', ''__proto__'']"

text \<open>
  What \<open>safeEase\<close> returns: a function on numbers (an entry of the table, the supplied
  function or the identity), a member inherited from \<open>Object.prototype\<close>, named, or
  \<open>undefined\<close>.
\<close>

datatype ease_result = Eased "real \<Rightarrow> real" | Inherited string | EaseUndefined

definition safeEase :: "ease_arg \<Rightarrow> ease_result" where
  "safeEase ease =
     (case ease of
        EaseString n \<Rightarrow>
          (case easing n of
             Some f \<Rightarrow> Eased f
           | None \<Rightarrow> if n \<in> set Object_prototype then Inherited n else EaseUndefined)
      | EaseFunction f \<Rightarrow> Eased f
      | EaseOther \<Rightarrow> Eased (\<lambda>x. x))"

text \<open>
  Values of target properties: numbers, strings, objects (own enumerable fields in
  order) and \<open>undefined\<close>. Arithmetic on anything but numbers is outside the model: the
  interpolation step then has no result here (\<open>None\<close>). It has none either when the
  ease is not a function on numbers: calling \<open>undefined\<close> is a \<open>TypeError\<close> in the
  source, and what a member of \<open>Object.prototype\<close> returns is not a number.
\<close>

datatype jsval = Num real | Str string | Obj "(string \<times> jsval) list" | Undefined

type_synonym jsobj = "(string \<times> jsval) list"

definition getprop :: "jsobj \<Rightarrow> string \<Rightarrow> jsval" where
  "getprop obj k = (case map_of obj k of Some v \<Rightarrow> v | None \<Rightarrow> Undefined)"

definition setprop :: "jsobj \<Rightarrow> string \<Rightarrow> jsval \<Rightarrow> jsobj" where
  "setprop obj k v = AList.update k v obj"

definition object_keys :: "jsobj option \<Rightarrow> string list" where
  "object_keys obj = (case obj of Some fs \<Rightarrow> map fst fs | None \<Rightarrow> [])"

definition cloneValue :: "jsval \<Rightarrow> jsval" where
  "cloneValue v = (case v of Obj fs \<Rightarrow> Obj (fold (\<lambda>(k, x) c. AList.update k x c) fs []) | _ \<Rightarrow> v)"

definition lerp_val :: "jsval \<Rightarrow> jsval \<Rightarrow> real \<Rightarrow> jsval option" where
  "lerp_val a b t = (case (a, b) of (Num x, Num y) \<Rightarrow> Some (Num (lerp x y t)) | _ \<Rightarrow> None)"

fun lerpObject :: "jsobj \<Rightarrow> jsobj \<Rightarrow> jsval \<Rightarrow> real \<Rightarrow> string list \<Rightarrow> jsobj option" where
  "lerpObject receiver a b t [] = Some receiver"
| "lerpObject receiver a b t (k # ks) =
     (case getprop a k of
        Num va \<Rightarrow>
          (case b of
             Obj bf \<Rightarrow>
               (case lerp_val (Num va) (getprop bf k) t of
                  Some v \<Rightarrow> lerpObject (setprop receiver k v) a b t ks
                | None \<Rightarrow> None)
           | _ \<Rightarrow> None)
      | _ \<Rightarrow> lerpObject receiver a b t ks)"

record tween_binding =
  tw_keys :: "string list"
  tw_from :: jsobj
  tw_to :: jsobj
  tw_ease :: ease_result

text \<open>\<open>from?.[key] ?? target[key]\<close>, cloned.\<close>

definition snapshot :: "jsobj option \<Rightarrow> jsobj \<Rightarrow> string \<Rightarrow> jsval" where
  "snapshot src target k =
     cloneValue
       (case src of
          Some fs \<Rightarrow> (case getprop fs k of Undefined \<Rightarrow> getprop target k | v \<Rightarrow> v)
        | None \<Rightarrow> getprop target k)"

text \<open>What \<open>tween\<close> computes before it creates the instance.\<close>

definition tween_bind :: "jsobj \<Rightarrow> jsobj option \<Rightarrow> jsobj option \<Rightarrow> ease_arg \<Rightarrow> tween_binding" where
  "tween_bind target from to ease =
     (let keys = fold (\<lambda>k ks. set_add ks k) (object_keys from @ object_keys to) []
      in \<lparr> tw_keys = keys,
           tw_from = map (\<lambda>k. (k, snapshot from target k)) keys,
           tw_to = map (\<lambda>k. (k, snapshot to target k)) keys,
           tw_ease = safeEase ease \<rparr>)"

fun tween_keys :: "tween_binding \<Rightarrow> real \<Rightarrow> string list \<Rightarrow> jsobj \<Rightarrow> jsobj option" where
  "tween_keys b t [] target = Some target"
| "tween_keys b t (k # ks) target =
     (case getprop target k of
        Num v \<Rightarrow>
          (case lerp_val (getprop (tw_from b) k) (getprop (tw_to b) k) t of
             Some x \<Rightarrow> tween_keys b t ks (setprop target k x)
           | None \<Rightarrow> None)
      | Obj fs \<Rightarrow>
          (case getprop (tw_from b) k of
             Obj ff \<Rightarrow>
               (case lerpObject fs ff (getprop (tw_to b) k) t (map fst ff) of
                  Some fs' \<Rightarrow> tween_keys b t ks (setprop target k (Obj fs'))
                | None \<Rightarrow> None)
           | _ \<Rightarrow> tween_keys b t ks target)
      | _ \<Rightarrow> tween_keys b t ks target)"

text \<open>
  The frame callback that \<open>tween\<close> hands to \<open>duringWithTarget\<close>: it reads \<open>progress\<close>
  from the instance and writes the target.
\<close>

definition tween_callback :: "tween_binding \<Rightarrow> AnimationInstance \<Rightarrow> jsobj \<Rightarrow> jsobj option" where
  "tween_callback b anim target =
     (case (tw_ease b, progress anim) of
        (Eased ease, Some p) \<Rightarrow> tween_keys b (ease p) (tw_keys b) target
      | _ \<Rightarrow> None)"


section \<open>What callbacks can and cannot change\<close>

text \<open>
  \<open>scheduled\<close> events are the advances and the callback invocations made by the
  scheduler itself, as opposed to the \<open>immediate\<close> call of \<open>during\<close>. \<open>cbrel s s'\<close>
  collects what every callback body leaves alone.
\<close>

fun scheduled :: "event \<Rightarrow> bool" where
  "scheduled (Call Immediate a c) = False"
| "scheduled _ = True"

definition cbrel :: "state \<Rightarrow> state \<Rightarrow> bool" where
  "cbrel s s' \<longleftrightarrow>
     count s \<le> count s' \<and>
     completeCallbacks s' = completeCallbacks s \<and>
     nextFrameCallbacks s' = nextFrameCallbacks s \<and>
     clock_deltaTime s' = clock_deltaTime s \<and>
     (updating s \<longrightarrow> updating s' \<and> animations s' = animations s) \<and>
     (\<exists>ys. destroyedAnimations s' = destroyedAnimations s @ ys) \<and>
     (\<exists>ys. trace s' = trace s @ ys) \<and>
     (\<forall>a. a < count s \<longrightarrow>
        time (heap s' a) = time (heap s a) \<and>
        timeScale (heap s' a) = timeScale (heap s a) \<and>
        duration (heap s' a) = duration (heap s a) \<and>
        frame (heap s' a) = frame (heap s a) \<and>
        (destroyed (heap s a) \<longrightarrow> destroyed (heap s' a) \<and>
           map_of (destroyCallbacks s') a = map_of (destroyCallbacks s) a) \<and>
        map_of (frameCallbacks s') a = map_of (frameCallbacks s) a)"

lemma cbrel_refl: "cbrel s s"
  by (simp add: cbrel_def)

lemma cbrel_trans: "cbrel s t \<Longrightarrow> cbrel t u \<Longrightarrow> cbrel s u"
  unfolding cbrel_def by (auto; fastforce)

lemma cbrel_put_map: "cbrel s (put_map m g s)"
  by (auto simp: cbrel_def put_map_def split: mapname.splits)

lemma cbrel_upd_paused: "cbrel s (upd a (\<lambda>i. i\<lparr> paused := v \<rparr>) s)"
  by (auto simp: cbrel_def upd_def)

lemma cbrel_destroy: "cbrel s (destroy a s)"
  by (auto simp: cbrel_def destroy_def upd_def set_add_def)

lemma cbrel_new: "cbrel s (snd (new_AnimationInstance c s))"
  by (auto simp: cbrel_def new_AnimationInstance_def Let_def addAnimation_def onFrame_def
      cbm_add_def cbm_get_def update_conv' split: option.splits)

lemma cbrel_during_create: "cbrel s (snd (during_create p c s))"
  by (auto simp: cbrel_def during_create_def upd_def new_AnimationInstance_def Let_def addAnimation_def onFrame_def
      cbm_add_def cbm_get_def update_conv' split: option.splits prod.splits)

lemma cbrel_log: "cbrel s (log_call k a c s)"
  by (auto simp: cbrel_def log_call_def)

lemma cbrel_onDestroy: "cbrel s (onDestroy a c s)"
  by (auto simp: cbrel_def onDestroy_def cbm_add_def cbm_get_def update_conv' split: option.splits)

lemma cbrel_closures: "cbrel s (s\<lparr> closures := n \<rparr>)"
  by (auto simp: cbrel_def)

lemma cbrel_cancelTarget: "cbrel s (cancelTarget m t s)"
  by (auto simp: cancelTarget_def cbrel_destroy cbrel_refl split: option.splits)

lemma cbrel_AnimationMap_set: "cbrel s (AnimationMap_set m t a s)"
  unfolding AnimationMap_set_def Let_def
  by (auto split: option.splits intro!: cbrel_trans [OF _ cbrel_onDestroy] cbrel_trans [OF _ cbrel_closures] 
   cbrel_trans [OF _ cbrel_put_map] cbrel_destroy cbrel_refl)


lemma cbrel_run:
  "cbrel s (fst (runCb c s))"
  "cbrel s (runActions xs s)"
  "action_ok (count s) x \<Longrightarrow> cbrel s (runAction x s)"
  by (rule run_rel [where R = cbrel];
      (rule cbrel_refl cbrel_put_map cbrel_upd_paused cbrel_destroy cbrel_new cbrel_during_create
        cbrel_log cbrel_closures cbrel_cancelTarget cbrel_AnimationMap_set | assumption
        | erule (1) cbrel_trans))+

lemma cbrel_runCbs: "cbrel s (fst (runCbs k a cs (s, d)))"
  by (rule runCbs_rel [where R = cbrel];
      (rule cbrel_refl cbrel_log cbrel_run | erule (1) cbrel_trans))

definition sched :: "state \<Rightarrow> event list" where
  "sched s = filter scheduled (trace s)"

lemma sched_run:
  "sched (fst (runCb c s)) = sched s"
  "sched (runActions xs s) = sched s"
  "action_ok (count s) x \<Longrightarrow> sched (runAction x s) = sched s"
  by (rule run_rel [where R = "\<lambda>s s'. sched s' = sched s"];
      simp add: sched_def put_map_def upd_def destroy_def new_AnimationInstance_def Let_def
        addAnimation_def onFrame_def during_create_def log_call_def AnimationMap_set_def
        onDestroy_def cancelTarget_def
        split: mapname.splits option.splits prod.splits)+

lemma sched_runCbs:
  "k \<noteq> Immediate \<Longrightarrow>
   sched (fst (runCbs k a cs (s, d))) = sched s @ map (Call k a) cs"
proof (induction cs arbitrary: s d)
  case Nil
  show ?case by simp
next
  case (Cons c cs)
  obtain s1 r where r: "runCb c (log_call k a c s) = (s1, r)" by fastforce
  have "sched s1 = sched (log_call k a c s)"
    using sched_run(1) [of c "log_call k a c s"] r by simp
  also have "\<dots> = sched s @ [Call k a c]"
    using Cons.prems by (cases k) (simp_all add: sched_def log_call_def)
  finally show ?case using r Cons.IH [OF Cons.prems, of s1 "r \<or> d"]
    by (simp del: runCb.simps)
qed


fun is_call :: "kind \<Rightarrow> event \<Rightarrow> bool" where
  "is_call k (Call k' a c) = (k = k')"
| "is_call k (Advance a) = False"

lemma is_call_sched:
  "k \<noteq> Immediate \<Longrightarrow> filter (is_call k) (trace s) = filter (is_call k) (sched s)"
proof -
  assume k: "k \<noteq> Immediate"
  have "is_call k e \<Longrightarrow> scheduled e" for e
    using k by (cases e rule: scheduled.cases) auto
  then show ?thesis unfolding sched_def filter_filter
    by (intro filter_cong) auto
qed

lemma getAndDelete_eq: "getAndDelete m a = (cbm_get m a, cbm_delete m a)"
proof (cases "cbm_get m a")
  case None
  then have "a \<notin> fst ` set m" by (simp add: cbm_get_def map_of_eq_None_iff)
  then have "AList.delete a m = m" by (induction m) auto
  with None show ?thesis by (simp add: getAndDelete_def cbm_delete_def)
next
  case (Some cs)
  then show ?thesis by (simp add: getAndDelete_def)
qed

lemma cbm_get_delete [simp]: "cbm_get (cbm_delete m a) b = (if b = a then None else cbm_get m b)"
  by (simp add: cbm_get_def cbm_delete_def delete_conv')

definition advance :: "aid \<Rightarrow> state \<Rightarrow> state" where
  "advance a s =
     upd a (\<lambda>i. i\<lparr> timeOld := time i,
                     deltaTime := clock_deltaTime s * timeScale i,
                     time := time i + clock_deltaTime s * timeScale i \<rparr>)
       (s\<lparr> trace := trace s @ [Advance a] \<rparr>)"

lemma updateAnimation_delayed:
  "time (heap s a) + clock_deltaTime s * timeScale (heap s a) < 0 \<Longrightarrow>
   updateAnimation a s = advance a s"
  by (simp add: updateAnimation_def advance_def Let_def upd_def)

lemma updateAnimation_run:
  assumes "0 \<le> time (heap s a) + clock_deltaTime s * timeScale (heap s a)"
  obtains s2 s3 d1 s4 d2 s5 where
    "s2 = upd a (\<lambda>i. i\<lparr> frame := frame i + 1 \<rparr>) (advance a s)"
    "s3 = fst (runCbs OnFrame a (or_nothing (cbm_get (frameCallbacks s2) a)) (s2, False))"
    "s4 = fst (runCbs OnNextFrame a (or_nothing (cbm_get (nextFrameCallbacks s3) a))
       (s3\<lparr> nextFrameCallbacks := cbm_delete (nextFrameCallbacks s3) a \<rparr>, d1))"
    "s5 = (if complete (heap s4 a)
           then fst (runCbs OnComplete a (or_nothing (cbm_get (completeCallbacks s4) a)) (s4, False))
           else s4)"
    "updateAnimation a s = (if d2 \<or> complete (heap s5 a) then destroy a s5 else s5)"
proof -
  define s2 where "s2 = upd a (\<lambda>i. i\<lparr> frame := frame i + 1 \<rparr>) (advance a s)"
  obtain s3 d1 where a: "runCbs OnFrame a (or_nothing (cbm_get (frameCallbacks s2) a)) (s2, False) = (s3, d1)"
    by fastforce
  obtain s4 d2 where b: "runCbs OnNextFrame a (or_nothing (cbm_get (nextFrameCallbacks s3) a))
       (s3\<lparr> nextFrameCallbacks := cbm_delete (nextFrameCallbacks s3) a \<rparr>, d1) = (s4, d2)"
    by fastforce
  define s5 where "s5 = (if complete (heap s4 a)
           then fst (runCbs OnComplete a (or_nothing (cbm_get (completeCallbacks s4) a)) (s4, False))
           else s4)"
  have t: "0 \<le> time (heap (advance a s) a)"
    using assms by (simp add: advance_def upd_def)
  have "updateAnimation a s = (if d2 \<or> complete (heap s5 a) then destroy a s5 else s5)"
    unfolding updateAnimation_def Let_def advance_def [symmetric] s2_def [symmetric]
    using t a b by (simp add: getAndDelete_eq s5_def)
  moreover have "s3 = fst (runCbs OnFrame a (or_nothing (cbm_get (frameCallbacks s2) a)) (s2, False))"
    using a by simp
  moreover have "s4 = fst (runCbs OnNextFrame a (or_nothing (cbm_get (nextFrameCallbacks s3) a))
       (s3\<lparr> nextFrameCallbacks := cbm_delete (nextFrameCallbacks s3) a \<rparr>, d1))"
    using b by simp
  ultimately show ?thesis using that s2_def s5_def by blast
qed

definition wfs :: "state \<Rightarrow> bool" where
  "wfs s \<longleftrightarrow>
     (\<forall>a \<in> set (animations s). a < count s) \<and>
     distinct (animations s) \<and>
     (\<forall>a \<in> set (newAnimations s). a < count s) \<and>
     (\<forall>a \<in> set (destroyedAnimations s). a < count s \<and> destroyed (heap s a)) \<and>
     distinct (destroyedAnimations s) \<and>
     (\<forall>t a. loopMap s t = Some a \<longrightarrow> a < count s) \<and>
     (\<forall>t a. duringMap s t = Some a \<longrightarrow> a < count s) \<and>
     (\<forall>a cs. map_of (completeCallbacks s) a = Some cs \<longrightarrow> distinct cs) \<and>
     (\<forall>a cs. map_of (destroyCallbacks s) a = Some cs \<longrightarrow> distinct cs)"

lemma wf_init: "wfs init"
  by (simp add: wfs_def init_def)

lemma distinct_set_add: "distinct xs \<Longrightarrow> distinct (set_add xs x)"
  by (simp add: set_add_def)

lemma wf_put_map: "wfs s \<Longrightarrow> wfs (put_map m ((get_map m s)(t := None)) s)"
  by (auto simp: wfs_def put_map_def get_map_def split: mapname.splits if_splits)

lemma wf_upd_paused: "wfs s \<Longrightarrow> wfs (upd a (\<lambda>i. i\<lparr> paused := v \<rparr>) s)"
  by (auto simp: wfs_def upd_def)

lemma wf_destroy: "wfs s \<Longrightarrow> a < count s \<Longrightarrow> wfs (destroy a s)"
  by (auto simp: wfs_def destroy_def upd_def set_add_def)

lemma wf_new: "wfs s \<Longrightarrow> wfs (snd (new_AnimationInstance c s))"
  unfolding wfs_def new_AnimationInstance_def Let_def addAnimation_def onFrame_def
  by (auto simp: set_add_def less_Suc_eq split: option.splits)

lemma wf_during_create: "wfs s \<Longrightarrow> wfs (snd (during_create p c s))"
  unfolding wfs_def during_create_def new_AnimationInstance_def Let_def addAnimation_def onFrame_def upd_def
  by (auto simp: set_add_def less_Suc_eq split: option.splits)

lemma wf_log: "wfs s \<Longrightarrow> wfs (log_call k a c s)"
  by (auto simp: wfs_def log_call_def)

lemma wf_closures: "wfs s \<Longrightarrow> wfs (s\<lparr> closures := n \<rparr>)"
  by (auto simp: wfs_def)

lemma wf_onDestroy: "wfs s \<Longrightarrow> wfs (onDestroy a c s)"
  by (auto simp: wfs_def onDestroy_def cbm_add_def cbm_get_def update_conv' set_add_def
      split: option.splits if_splits)

lemma wf_map_range: "wfs s \<Longrightarrow> get_map m s t = Some a \<Longrightarrow> a < count s"
  by (auto simp: wfs_def get_map_def split: mapname.splits)

lemma wf_cancelTarget: "wfs s \<Longrightarrow> wfs (cancelTarget m t s)"
  by (cases "get_map m s t") (auto simp: cancelTarget_def intro: wf_destroy wf_map_range)

lemma wf_put_map_new: "wfs s \<Longrightarrow> a < count s \<Longrightarrow> wfs (put_map m ((get_map m s)(t \<mapsto> a)) s)"
  by (auto simp: wfs_def put_map_def get_map_def split: mapname.splits if_splits)

lemma wf_AnimationMap_set: "wfs s \<Longrightarrow> a < count s \<Longrightarrow> wfs (AnimationMap_set m t a s)"
proof -
  assume w: "wfs s" and a: "a < count s"
  define s1 where "s1 = (case get_map m s t of Some old \<Rightarrow> destroy old s | None \<Rightarrow> s)"
  have w1: "wfs s1" and c1: "count s1 = count s"
    unfolding s1_def using w by (auto split: option.splits intro: wf_destroy wf_map_range)
  define s2 where "s2 = put_map m ((get_map m s1)(t \<mapsto> a)) s1"
  have w2: "wfs s2" unfolding s2_def using w1 a c1 by (simp add: wf_put_map_new)
  have "AnimationMap_set m t a s =
      onDestroy a (Some (MapCleanup (closures s2) m t a)) (s2\<lparr> closures := Suc (closures s2) \<rparr>)"
    by (simp add: AnimationMap_set_def Let_def s1_def s2_def)
  then show ?thesis using w2 by (simp add: wf_onDestroy wf_closures)
qed

lemma wf_run:
  "wfs s \<longrightarrow> wfs (fst (runCb c s))"
  "wfs s \<longrightarrow> wfs (runActions xs s)"
  "action_ok (count s) x \<Longrightarrow> wfs s \<longrightarrow> wfs (runAction x s)"
  by (rule run_rel [where R = "\<lambda>s s'. wfs s \<longrightarrow> wfs s'"];
      (assumption | simp add: wf_put_map wf_upd_paused wf_destroy wf_new wf_during_create wf_log
         wf_closures wf_cancelTarget wf_AnimationMap_set))+

lemma wf_runCbs: "wfs s \<Longrightarrow> wfs (fst (runCbs k a cs (s, d)))"
  using runCbs_rel [where R = "\<lambda>s s'. wfs s \<longrightarrow> wfs s'" and cs = cs and k = k and a = a and s = s and d = d]
  by (simp add: wf_log wf_run)

fun call_of :: "kind \<Rightarrow> event \<Rightarrow> (aid \<times> cb) list" where
  "call_of k (Call k' a c) = (if k = k' then [(a, c)] else [])"
| "call_of k (Advance a) = []"

definition calls :: "kind \<Rightarrow> state \<Rightarrow> (aid \<times> cb) list" where
  "calls k s = concat (map (call_of k) (trace s))"

lemma calls_sched: "k \<noteq> Immediate \<Longrightarrow> calls k s = concat (map (call_of k) (sched s))"
proof -
  assume k: "k \<noteq> Immediate"
  have "concat (map (call_of k) (filter scheduled xs)) = concat (map (call_of k) xs)" for xs
  proof (induction xs)
    case Nil
    show ?case by simp
  next
    case (Cons e xs)
    then show ?case using k by (cases e rule: scheduled.cases) auto
  qed
  then show ?thesis by (simp add: calls_def sched_def)
qed

lemma calls_runCbs:
  assumes "k \<noteq> Immediate" "k' \<noteq> Immediate"
  shows "calls k' (fst (runCbs k a cs (s, d))) =
         calls k' s @ (if k' = k then map (Pair a) cs else [])"
proof -
  have "concat (map (call_of k') (map (Call k a) cs)) = (if k' = k then map (Pair a) cs else [])"
    by (induction cs) auto
  then show ?thesis using assms by (simp add: calls_sched sched_runCbs)
qed

lemma calls_run:
  "k \<noteq> Immediate \<Longrightarrow> calls k (fst (runCb c s)) = calls k s"
  "k \<noteq> Immediate \<Longrightarrow> calls k (runActions xs s) = calls k s"
  "k \<noteq> Immediate \<Longrightarrow> action_ok (count s) x \<Longrightarrow> calls k (runAction x s) = calls k s"
  by (simp_all add: calls_sched sched_run)

definition once :: "state \<Rightarrow> bool" where
  "once s \<longleftrightarrow>
     distinct (calls OnComplete s) \<and>
     (\<forall>a c. (a, c) \<in> set (calls OnComplete s) \<longrightarrow>
        a < count s \<and> destroyed (heap s a) \<and> 0 \<le> time (heap s a) \<and> complete (heap s a)) \<and>
     distinct (calls OnDestroy s) \<and>
     (\<forall>a c. (a, c) \<in> set (calls OnDestroy s) \<longrightarrow>
        a < count s \<and> destroyed (heap s a) \<and> map_of (destroyCallbacks s) a = None)"

text \<open>A step that adds no complete or destroy call and keeps destroyed instances as they are.\<close>

definition keeps :: "state \<Rightarrow> state \<Rightarrow> bool" where
  "keeps s s' \<longleftrightarrow>
     count s \<le> count s' \<and>
     calls OnComplete s' = calls OnComplete s \<and>
     calls OnDestroy s' = calls OnDestroy s \<and>
     (\<forall>a. a < count s \<longrightarrow> destroyed (heap s a) \<longrightarrow>
        destroyed (heap s' a) \<and>
        (map_of (destroyCallbacks s) a = None \<longrightarrow> map_of (destroyCallbacks s') a = None) \<and>
        time (heap s' a) = time (heap s a) \<and> duration (heap s' a) = duration (heap s a))"

lemma keeps_refl: "keeps s s"
  by (simp add: keeps_def)

lemma complete_cong:
  assumes "time i' = time i" "duration i' = duration i"
  shows "complete i' = complete i"
  unfolding complete_def assms by simp

lemma keepsD:
  assumes "keeps s s'"
  shows "count s \<le> count s'"
    and "calls OnComplete s' = calls OnComplete s"
    and "calls OnDestroy s' = calls OnDestroy s"
    and "a < count s \<Longrightarrow> destroyed (heap s a) \<Longrightarrow> destroyed (heap s' a)"
    and "a < count s \<Longrightarrow> destroyed (heap s a) \<Longrightarrow>
         map_of (destroyCallbacks s) a = None \<Longrightarrow> map_of (destroyCallbacks s') a = None"
    and "a < count s \<Longrightarrow> destroyed (heap s a) \<Longrightarrow> time (heap s' a) = time (heap s a)"
    and "a < count s \<Longrightarrow> destroyed (heap s a) \<Longrightarrow>
         duration (heap s' a) = duration (heap s a)"
  using assms unfolding keeps_def by blast+

lemma keeps_trans:
  assumes st: "keeps s t" and tu: "keeps t u"
  shows "keeps s u"
proof -
  have "destroyed (heap u a) \<and>
      (map_of (destroyCallbacks s) a = None \<longrightarrow> map_of (destroyCallbacks u) a = None) \<and>
      time (heap u a) = time (heap s a) \<and> duration (heap u a) = duration (heap s a)"
    if a: "a < count s" and d: "destroyed (heap s a)" for a
  proof -
    have a': "a < count t" using a keepsD(1) [OF st] by simp
    have d': "destroyed (heap t a)" using keepsD(4) [OF st a d] .
    show ?thesis
      using keepsD(4-7) [OF st a d] keepsD(4-7) [OF tu a' d'] by simp
  qed
  then show ?thesis
    using keepsD(1-3) [OF st] keepsD(1-3) [OF tu] unfolding keeps_def by simp
qed

lemma once_keeps:
  assumes o: "once s" and k: "keeps s s'"
  shows "once s'"
proof -
  have 1: "a < count s' \<and> destroyed (heap s' a) \<and> 0 \<le> time (heap s' a) \<and> complete (heap s' a)"
    if "(a, c) \<in> set (calls OnComplete s')" for a c
  proof -
    from that have "(a, c) \<in> set (calls OnComplete s)" by (simp add: keepsD(2) [OF k])
    with o have a: "a < count s" and d: "destroyed (heap s a)" and t: "0 \<le> time (heap s a)"
      and c: "complete (heap s a)" unfolding once_def by blast+
    show ?thesis
      using keepsD(1) [OF k] keepsD(4,6,7) [OF k a d] a t c
      by (simp add: complete_cong [of "heap s' a" "heap s a"])
  qed
  have 2: "a < count s' \<and> destroyed (heap s' a) \<and> map_of (destroyCallbacks s') a = None"
    if "(a, c) \<in> set (calls OnDestroy s')" for a c
  proof -
    from that have "(a, c) \<in> set (calls OnDestroy s)" by (simp add: keepsD(3) [OF k])
    with o have a: "a < count s" and d: "destroyed (heap s a)"
      and n: "map_of (destroyCallbacks s) a = None" unfolding once_def by blast+
    show ?thesis
      using keepsD(1) [OF k] keepsD(4) [OF k a d] keepsD(5) [OF k a d n] a by simp
  qed
  have "distinct (calls OnComplete s')" "distinct (calls OnDestroy s')"
    using o by (simp_all add: keepsD(2,3) [OF k] once_def)
  then show ?thesis unfolding once_def using 1 2 by blast
qed

lemma keeps_cbrel:
  "cbrel s s' \<Longrightarrow> calls OnComplete s' = calls OnComplete s \<Longrightarrow>
   calls OnDestroy s' = calls OnDestroy s \<Longrightarrow> keeps s s'"
  unfolding keeps_def cbrel_def by simp

lemma keeps_run:
  "keeps s (fst (runCb c s))"
  "keeps s (runActions xs s)"
  "action_ok (count s) x \<Longrightarrow> keeps s (runAction x s)"
  by (auto intro!: keeps_cbrel cbrel_run simp: calls_run)

lemma keeps_runCbs:
  "k = OnFrame \<or> k = OnNextFrame \<Longrightarrow> keeps s (fst (runCbs k a cs (s, d)))"
  by (rule keeps_cbrel) (auto simp: cbrel_runCbs calls_runCbs)

lemma keeps_destroy: "keeps s (destroy a s)"
  by (auto simp: keeps_def destroy_def upd_def calls_def)

lemma keeps_advance: "\<not> destroyed (heap s a) \<Longrightarrow> keeps s (advance a s)"
  by (auto simp: keeps_def advance_def upd_def calls_def)

lemma keeps_upd:
  "(\<And>i. destroyed (f i) = destroyed i \<and> time (f i) = time i \<and> duration (f i) = duration i) \<Longrightarrow>
   keeps s (upd a f s)"
  by (auto simp: keeps_def upd_def calls_def)

lemma keeps_nextFrameCallbacks: "keeps s (s\<lparr> nextFrameCallbacks := m \<rparr>)"
  by (auto simp: keeps_def calls_def)

lemma wf_upd:
  "(\<And>i. destroyed (f i) = destroyed i) \<Longrightarrow> wfs s \<Longrightarrow> wfs (upd a f s)"
  by (auto simp: wfs_def upd_def)

lemma wf_advance: "wfs s \<Longrightarrow> wfs (advance a s)"
  by (auto simp: wfs_def advance_def upd_def)

lemma wf_nextFrameCallbacks: "wfs s \<Longrightarrow> wfs (s\<lparr> nextFrameCallbacks := m \<rparr>)"
  by (auto simp: wfs_def)

lemma count_runCbs: "count s \<le> count (fst (runCbs k a cs (s, d)))"
  using cbrel_runCbs [of s k a cs d] by (simp add: cbrel_def)

lemma calls_destroy [simp]: "calls k (destroy a s) = calls k s"
  by (simp add: calls_def destroy_def upd_def)

lemma destroyed_destroy [simp]:
  "destroyed (heap (destroy a s) b) \<longleftrightarrow> b = a \<or> destroyed (heap s b)"
  by (auto simp: destroy_def upd_def)

text \<open>The states of \<open>updateAnimation\<close> up to the complete callbacks.\<close>

lemma heap_destroy [simp]:
  "time (heap (destroy a s) b) = time (heap s b)"
  "duration (heap (destroy a s) b) = duration (heap s b)"
  "frame (heap (destroy a s) b) = frame (heap s b)"
  "timeScale (heap (destroy a s) b) = timeScale (heap s b)"
  "paused (heap (destroy a s) b) = paused (heap s b)"
  by (auto simp: destroy_def upd_def)

lemma complete_destroy [simp]: "complete (heap (destroy a s) b) = complete (heap s b)"
  by (rule complete_cong) simp_all

lemma cbrel_heap:
  assumes "cbrel s s'" "a < count s"
  shows "time (heap s' a) = time (heap s a)"
    and "timeScale (heap s' a) = timeScale (heap s a)"
    and "duration (heap s' a) = duration (heap s a)"
    and "frame (heap s' a) = frame (heap s a)"
    and "destroyed (heap s a) \<Longrightarrow> destroyed (heap s' a)"
    and "destroyed (heap s a) \<Longrightarrow>
         map_of (destroyCallbacks s') a = map_of (destroyCallbacks s) a"
  using assms unfolding cbrel_def by blast+

lemma cbrel_complete:
  "cbrel s s' \<Longrightarrow> a < count s \<Longrightarrow> complete (heap s' a) = complete (heap s a)"
  by (rule complete_cong) (simp_all add: cbrel_heap)

lemma cbrel_count: "cbrel s s' \<Longrightarrow> count s \<le> count s'"
  by (simp add: cbrel_def)

lemma updateAnimation_prefix:
  assumes s2: "s2 = upd a (\<lambda>i. i\<lparr> frame := frame i + 1 \<rparr>) (advance a s)"
    and s3: "s3 = fst (runCbs OnFrame a cs1 (s2, False))"
    and s4: "s4 = fst (runCbs OnNextFrame a cs2 (s3\<lparr> nextFrameCallbacks := m \<rparr>, d1))"
  shows "\<not> destroyed (heap s a) \<Longrightarrow> keeps s s4" and "wfs s \<Longrightarrow> wfs s4"
    and "a < count s \<Longrightarrow>
         time (heap s4 a) = time (heap s a) + clock_deltaTime s * timeScale (heap s a) \<and>
         duration (heap s4 a) = duration (heap s a) \<and>
         timeScale (heap s4 a) = timeScale (heap s a) \<and>
         frame (heap s4 a) = frame (heap s a) + 1"
    and "count s \<le> count s4"
proof -
  have r3: "cbrel s2 s3" unfolding s3 by (rule cbrel_runCbs)
  have r4: "cbrel (s3\<lparr> nextFrameCallbacks := m \<rparr>) s4" unfolding s4 by (rule cbrel_runCbs)
  have c2: "count s2 = count s" by (simp add: s2 advance_def)
  show c4: "count s \<le> count s4"
    using cbrel_count [OF r3] cbrel_count [OF r4] c2 by simp
  {
    assume a: "a < count s"
    have "a < count s3" using a c2 cbrel_count [OF r3] by simp
    then have "time (heap s4 a) = time (heap s3 a)" "duration (heap s4 a) = duration (heap s3 a)"
      "timeScale (heap s4 a) = timeScale (heap s3 a)" "frame (heap s4 a) = frame (heap s3 a)"
      using cbrel_heap(1-4) [OF r4, of a] by simp_all
    moreover have "time (heap s3 a) = time (heap s2 a)" "duration (heap s3 a) = duration (heap s2 a)"
      "timeScale (heap s3 a) = timeScale (heap s2 a)" "frame (heap s3 a) = frame (heap s2 a)"
      using cbrel_heap(1-4) [OF r3, of a] a c2 by simp_all
    ultimately show "time (heap s4 a) = time (heap s a) + clock_deltaTime s * timeScale (heap s a) \<and>
         duration (heap s4 a) = duration (heap s a) \<and>
         timeScale (heap s4 a) = timeScale (heap s a) \<and>
         frame (heap s4 a) = frame (heap s a) + 1"
      by (simp add: s2 advance_def upd_def)
  }
  {
    assume nd: "\<not> destroyed (heap s a)"
    have k2: "keeps s s2"
      unfolding s2 by (rule keeps_trans [OF keeps_advance [OF nd] keeps_upd]) simp
    have k3: "keeps s2 s3" unfolding s3 by (rule keeps_runCbs) simp
    have k4: "keeps s3 s4"
      unfolding s4 by (rule keeps_trans [OF keeps_nextFrameCallbacks keeps_runCbs]) simp
    show "keeps s s4" by (rule keeps_trans [OF k2 keeps_trans [OF k3 k4]])
  }
  {
    assume w: "wfs s"
    have "wfs s2" unfolding s2 using w by (intro wf_upd wf_advance) simp_all
    then have "wfs s3" unfolding s3 by (rule wf_runCbs)
    then show "wfs s4" unfolding s4 by (intro wf_runCbs wf_nextFrameCallbacks)
  }
qed

lemma wf_updateAnimation:
  assumes "wfs s" "a < count s"
  shows "wfs (updateAnimation a s)"
proof (cases "0 \<le> time (heap s a) + clock_deltaTime s * timeScale (heap s a)")
  case False
  then show ?thesis using assms by (simp add: updateAnimation_delayed wf_advance)
next
  case True
  show ?thesis
  proof (rule updateAnimation_run [OF True])
  fix s2 s3 d1 s4 d2 s5
  assume s2: "s2 = upd a (\<lambda>i. i\<lparr> frame := frame i + 1 \<rparr>) (advance a s)"
    and s3: "s3 = fst (runCbs OnFrame a (or_nothing (cbm_get (frameCallbacks s2) a)) (s2, False))"
    and s4: "s4 = fst (runCbs OnNextFrame a (or_nothing (cbm_get (nextFrameCallbacks s3) a))
       (s3\<lparr> nextFrameCallbacks := cbm_delete (nextFrameCallbacks s3) a \<rparr>, d1))"
    and s5: "s5 = (if complete (heap s4 a)
           then fst (runCbs OnComplete a (or_nothing (cbm_get (completeCallbacks s4) a)) (s4, False))
           else s4)"
    and u: "updateAnimation a s = (if d2 \<or> complete (heap s5 a) then destroy a s5 else s5)"
  note p = updateAnimation_prefix [OF s2 s3 s4]
  have w4: "wfs s4" using p(2) assms by simp
  have c4: "a < count s4" using p(4) assms by simp
  have w5: "wfs s5" unfolding s5 using w4 by (simp add: wf_runCbs)
  have "count s4 \<le> count s5" unfolding s5 by (simp add: count_runCbs)
  then have "a < count s5" using c4 by simp
  then show ?thesis using u w5 by (simp add: wf_destroy)
  qed
qed

lemma once_updateAnimation:
  assumes w: "wfs s" and o: "once s" and a: "a < count s" and nd: "\<not> destroyed (heap s a)"
  shows "once (updateAnimation a s)"
proof (cases "0 \<le> time (heap s a) + clock_deltaTime s * timeScale (heap s a)")
  case False
  then show ?thesis
    using o nd by (simp add: updateAnimation_delayed once_keeps [OF _ keeps_advance])
next
  case True
  show ?thesis
  proof (rule updateAnimation_run [OF True])
  fix s2 s3 d1 s4 d2 s5
  assume s2: "s2 = upd a (\<lambda>i. i\<lparr> frame := frame i + 1 \<rparr>) (advance a s)"
    and s3: "s3 = fst (runCbs OnFrame a (or_nothing (cbm_get (frameCallbacks s2) a)) (s2, False))"
    and s4: "s4 = fst (runCbs OnNextFrame a (or_nothing (cbm_get (nextFrameCallbacks s3) a))
       (s3\<lparr> nextFrameCallbacks := cbm_delete (nextFrameCallbacks s3) a \<rparr>, d1))"
    and s5: "s5 = (if complete (heap s4 a)
           then fst (runCbs OnComplete a (or_nothing (cbm_get (completeCallbacks s4) a)) (s4, False))
           else s4)"
    and u: "updateAnimation a s = (if d2 \<or> complete (heap s5 a) then destroy a s5 else s5)"
  note p = updateAnimation_prefix [OF s2 s3 s4]
  have k: "keeps s s4" using nd by (rule p(1))
  have t4: "0 \<le> time (heap s4 a)" using p(3) [OF a] True by simp
  have w4: "wfs s4" using p(2) w by simp
  have o4: "once s4" using o k by (rule once_keeps)
  have a4: "a < count s4" using a k by (simp add: keeps_def)
  show ?thesis
  proof (cases "complete (heap s4 a)")
    case False
    then have "s5 = s4" by (simp add: s5)
    then show ?thesis using u o4 once_keeps [OF o4 keeps_destroy] by simp
  next
    case c: True
    define cs where "cs = or_nothing (cbm_get (completeCallbacks s4) a)"
    have e5: "s5 = fst (runCbs OnComplete a cs (s4, False))" using c by (simp add: s5 cs_def)
    have r5: "cbrel s4 s5" unfolding e5 by (rule cbrel_runCbs)
    have c5: "complete (heap s5 a)"
      using r5 a4 c by (simp add: cbrel_complete)
    have fin: "updateAnimation a s = destroy a s5" using u c5 by simp
    have cc: "calls OnComplete s5 = calls OnComplete s4 @ map (Pair a) cs"
      and cd: "calls OnDestroy s5 = calls OnDestroy s4"
      by (simp_all add: e5 calls_runCbs)
    have dcs: "distinct cs"
      using w4 by (auto simp: cs_def wfs_def or_nothing_def cbm_get_def split: option.splits)
    have nda: "\<And>c. (a, c) \<notin> set (calls OnComplete s4)"
      using o nd k by (auto simp: once_def keeps_def)
    have 1: "distinct (calls OnComplete (destroy a s5))"
      using o4 dcs nda by (auto simp: cc once_def distinct_map inj_on_def)
    have t5: "0 \<le> time (heap s5 a)" using t4 cbrel_heap(1) [OF r5 a4] by simp
    have 2: "b < count (destroy a s5) \<and> destroyed (heap (destroy a s5) b) \<and>
        0 \<le> time (heap (destroy a s5) b) \<and> complete (heap (destroy a s5) b)"
      if "(b, c) \<in> set (calls OnComplete (destroy a s5))" for b c
    proof (cases "(b, c) \<in> set (calls OnComplete s4)")
      case True
      with o4 have b: "b < count s4" and d: "destroyed (heap s4 b)" and t: "0 \<le> time (heap s4 b)"
        and c: "complete (heap s4 b)" unfolding once_def by blast+
      show ?thesis
        using cbrel_count [OF r5] cbrel_heap(1,5) [OF r5 b] cbrel_complete [OF r5 b] b d t c
        by simp
    next
      case False
      with that have "b = a" by (auto simp: cc)
      then show ?thesis using a4 cbrel_count [OF r5] t5 c5 by simp
    qed
    have 3: "distinct (calls OnDestroy (destroy a s5))"
      using o4 by (simp add: cd once_def)
    have 4: "b < count (destroy a s5) \<and> destroyed (heap (destroy a s5) b) \<and>
        map_of (destroyCallbacks (destroy a s5)) b = None"
      if "(b, c) \<in> set (calls OnDestroy (destroy a s5))" for b c
    proof -
      from that have "(b, c) \<in> set (calls OnDestroy s4)" by (simp add: cd)
      with o4 have b: "b < count s4" and d: "destroyed (heap s4 b)"
        and n: "map_of (destroyCallbacks s4) b = None" unfolding once_def by blast+
      show ?thesis
        using cbrel_count [OF r5] cbrel_heap(5,6) [OF r5 b d] b n by simp
    qed
    show ?thesis unfolding fin once_def using 1 2 3 4 by blast
  qed
  qed
qed

definition detach :: "aid \<Rightarrow> state \<Rightarrow> state" where
  "detach a s =
     s\<lparr> animations := removeAll a (animations s),
        frameCallbacks := cbm_delete (frameCallbacks s) a,
        nextFrameCallbacks := cbm_delete (nextFrameCallbacks s) a,
        destroyCallbacks := cbm_delete (destroyCallbacks s) a \<rparr>"

lemma destroyAnimation_eq:
  "destroyAnimation a s =
   fst (runCbs OnDestroy a (or_nothing (cbm_get (destroyCallbacks s) a)) (detach a s, False))"
proof (cases "cbm_get (destroyCallbacks s) a")
  case None
  then have "a \<notin> fst ` set (destroyCallbacks s)" by (simp add: cbm_get_def map_of_eq_None_iff)
  then have "AList.delete a (destroyCallbacks s) = destroyCallbacks s"
    by (induction "destroyCallbacks s") auto
  with None show ?thesis
    by (simp add: destroyAnimation_def getAndDelete_eq detach_def or_nothing_def cbm_delete_def)
next
  case (Some cs)
  then show ?thesis
    by (simp add: destroyAnimation_def getAndDelete_eq detach_def or_nothing_def)
qed

lemma wf_detach: "wfs s \<Longrightarrow> wfs (detach a s)"
  by (auto simp: wfs_def detach_def cbm_delete_def delete_conv' distinct_removeAll
      split: if_splits)

lemma wf_destroyAnimation: "wfs s \<Longrightarrow> wfs (destroyAnimation a s)"
  by (simp add: destroyAnimation_eq wf_runCbs wf_detach)

lemma keeps_detach: "keeps s (detach a s)"
  by (auto simp: keeps_def detach_def calls_def cbm_delete_def delete_conv')

lemma once_destroyAnimation:
  assumes w: "wfs s" and o: "once s" and a: "a < count s" and d: "destroyed (heap s a)"
  shows "once (destroyAnimation a s)"
proof -
  define cs where "cs = or_nothing (cbm_get (destroyCallbacks s) a)"
  define s1 where "s1 = detach a s"
  define s' where "s' = fst (runCbs OnDestroy a cs (s1, False))"
  have e: "destroyAnimation a s = s'" by (simp add: destroyAnimation_eq cs_def s1_def s'_def)
  have o1: "once s1" unfolding s1_def using o keeps_detach by (rule once_keeps)
  have r: "cbrel s1 s'" unfolding s'_def by (rule cbrel_runCbs)
  have c1: "count s1 = count s" by (simp add: s1_def detach_def)
  have cc: "calls OnComplete s' = calls OnComplete s1"
    and cd: "calls OnDestroy s' = calls OnDestroy s1 @ map (Pair a) cs"
    by (simp_all add: s'_def calls_runCbs)
  have dcs: "distinct cs"
    using w by (auto simp: cs_def wfs_def or_nothing_def cbm_get_def split: option.splits)
  have n1: "map_of (destroyCallbacks s1) a = None"
    by (simp add: s1_def detach_def cbm_delete_def delete_conv')
  have d1: "destroyed (heap s1 a)" using d by (simp add: s1_def detach_def)
  have nda: "(a, c) \<notin> set (calls OnDestroy s1)" if "cs \<noteq> []" for c
  proof
    assume "(a, c) \<in> set (calls OnDestroy s1)"
    then have "(a, c) \<in> set (calls OnDestroy s)" using keepsD(3) [OF keeps_detach, of a s] by (simp add: s1_def)
    with o have "map_of (destroyCallbacks s) a = None" unfolding once_def by blast
    with that show False by (simp add: cs_def or_nothing_def cbm_get_def)
  qed
  have 1: "distinct (calls OnComplete s')" using o1 by (simp add: cc once_def)
  have 2: "b < count s' \<and> destroyed (heap s' b) \<and> 0 \<le> time (heap s' b) \<and> complete (heap s' b)"
    if "(b, c) \<in> set (calls OnComplete s')" for b c
  proof -
    from that o1 have b: "b < count s1" and db: "destroyed (heap s1 b)" and t: "0 \<le> time (heap s1 b)"
      and c: "complete (heap s1 b)" unfolding once_def cc by blast+
    show ?thesis
      using cbrel_count [OF r] cbrel_heap(1,5) [OF r b] cbrel_complete [OF r b] b db t c by simp
  qed
  have 3: "distinct (calls OnDestroy s')"
  proof (cases "cs = []")
    case True
    then show ?thesis using o1 by (simp add: cd once_def)
  next
    case False
    then show ?thesis using o1 dcs nda by (auto simp: cd once_def distinct_map inj_on_def)
  qed
  have 4: "b < count s' \<and> destroyed (heap s' b) \<and> map_of (destroyCallbacks s') b = None"
    if "(b, c) \<in> set (calls OnDestroy s')" for b c
  proof (cases "(b, c) \<in> set (calls OnDestroy s1)")
    case True
    with o1 have b: "b < count s1" and db: "destroyed (heap s1 b)"
      and n: "map_of (destroyCallbacks s1) b = None" unfolding once_def by blast+
    show ?thesis using cbrel_count [OF r] cbrel_heap(5,6) [OF r b db] b n by simp
  next
    case False
    with that have "b = a" by (auto simp: cd)
    then show ?thesis
      using cbrel_count [OF r] cbrel_heap(5,6) [OF r _ d1] a c1 n1 by simp
  qed
  show ?thesis unfolding e once_def using 1 2 3 4 by blast
qed

definition invar :: "state \<Rightarrow> bool" where
  "invar s \<longleftrightarrow> wfs s \<and> once s"

lemma wf_elem:
  "wfs s \<Longrightarrow> i < length (destroyedAnimations s) \<Longrightarrow>
   destroyedAnimations s ! i < count s \<and> destroyed (heap s (destroyedAnimations s ! i))"
  by (simp add: wfs_def)

lemma inv_destroyLoop: "invar s \<Longrightarrow> invar (destroyLoop i s)"
proof (induction i s rule: destroyLoop.induct)
  case (1 i s)
  show ?case
  proof (cases "i < length (destroyedAnimations s)")
    case True
    have "invar (destroyAnimation (destroyedAnimations s ! i) s)"
      using 1(2) wf_elem [OF _ True] by (simp add: invar_def wf_destroyAnimation once_destroyAnimation)
    then show ?thesis using 1(1) [OF True] True by (simp add: destroyLoop.simps [of i s])
  next
    case False
    then show ?thesis using 1(2) by (simp add: destroyLoop.simps [of i s])
  qed
qed

lemma count_updateAnimation: "count s \<le> count (updateAnimation a s)"
proof (cases "0 \<le> time (heap s a) + clock_deltaTime s * timeScale (heap s a)")
  case False
  then show ?thesis by (simp add: updateAnimation_delayed advance_def)
next
  case True
  show ?thesis
  proof (rule updateAnimation_run [OF True])
    fix s2 s3 d1 s4 d2 s5
    assume s2: "s2 = upd a (\<lambda>i. i\<lparr> frame := frame i + 1 \<rparr>) (advance a s)"
      and s3: "s3 = fst (runCbs OnFrame a (or_nothing (cbm_get (frameCallbacks s2) a)) (s2, False))"
      and s4: "s4 = fst (runCbs OnNextFrame a (or_nothing (cbm_get (nextFrameCallbacks s3) a))
         (s3\<lparr> nextFrameCallbacks := cbm_delete (nextFrameCallbacks s3) a \<rparr>, d1))"
      and s5: "s5 = (if complete (heap s4 a)
             then fst (runCbs OnComplete a (or_nothing (cbm_get (completeCallbacks s4) a)) (s4, False))
             else s4)"
      and u: "updateAnimation a s = (if d2 \<or> complete (heap s5 a) then destroy a s5 else s5)"
    have "count s \<le> count s4" by (rule updateAnimation_prefix(4) [OF s2 s3 s4])
    moreover have "count s4 \<le> count s5" unfolding s5 by (simp add: count_runCbs)
    ultimately show ?thesis using u by simp
  qed
qed

lemma inv_visit: "invar s \<Longrightarrow> a < count s \<Longrightarrow> invar (visit a s)"
  by (simp add: visit_def invar_def wf_updateAnimation once_updateAnimation)

lemma count_visit: "count s \<le> count (visit a s)"
  by (simp add: visit_def count_updateAnimation)

lemma inv_fold_visit: "invar s \<Longrightarrow> \<forall>a \<in> set xs. a < count s \<Longrightarrow> invar (fold visit xs s)"
proof (induction xs arbitrary: s)
  case Nil
  then show ?case by simp
next
  case (Cons a xs)
  have "invar (visit a s)" using Cons.prems by (simp add: inv_visit)
  moreover have "\<forall>b \<in> set xs. b < count (visit a s)"
    using Cons.prems(2) count_visit [of s a] by auto
  ultimately show ?case using Cons.IH by simp
qed

lemma inv_fields:
  "invar s \<Longrightarrow> invar (s\<lparr> updating := u \<rparr>)"
  "invar s \<Longrightarrow> invar (s\<lparr> destroyedAnimations := [] \<rparr>)"
  "invar s \<Longrightarrow> \<forall>a \<in> set xs. a < count s \<Longrightarrow> distinct xs \<Longrightarrow>
   invar (s\<lparr> animations := xs \<rparr>)"
  "invar s \<Longrightarrow>
   invar (s\<lparr> clock_timeOld := t0, clock_time := t1, clock_deltaTime := dt, clock_frame := f \<rparr>)"
  by (auto simp: invar_def wfs_def once_def calls_def)

lemma set_fold_set_add: "set (fold (\<lambda>a xs. set_add xs a) ys xs) = set xs \<union> set ys"
  by (induction ys arbitrary: xs) (auto simp: set_add_def)

lemma distinct_fold_set_add: "distinct xs \<Longrightarrow> distinct (fold (\<lambda>a xs. set_add xs a) ys xs)"
  by (induction ys arbitrary: xs) (auto simp: set_add_def)

lemma inv_updateAnimations: "invar s \<Longrightarrow> invar (updateAnimations s)"
proof -
  assume i: "invar s"
  define s1 where "s1 = s\<lparr> updating := True \<rparr>"
  define s2 where "s2 = fold visit (animations s1) s1"
  define s3 where "s3 = destroyLoop 0 s2"
  define s4 where "s4 = s3\<lparr> destroyedAnimations := [] \<rparr>"
  define s5 where "s5 = s4\<lparr> animations := fold (\<lambda>a xs. set_add xs a) (newAnimations s4) (animations s4) \<rparr>"
  have e: "updateAnimations s = s5\<lparr> updating := False \<rparr>"
    by (simp add: updateAnimations_def Let_def s1_def s2_def s3_def s4_def s5_def)
  have i1: "invar s1" unfolding s1_def using i by (rule inv_fields)
  have "\<forall>a \<in> set (animations s1). a < count s1" using i1 by (simp add: invar_def wfs_def)
  then have "invar s2" unfolding s2_def using i1 by (simp add: inv_fold_visit)
  then have "invar s3" unfolding s3_def by (rule inv_destroyLoop)
  then have i4: "invar s4" unfolding s4_def by (rule inv_fields)
  have "\<forall>a \<in> set (fold (\<lambda>a xs. set_add xs a) (newAnimations s4) (animations s4)). a < count s4"
    using i4 by (auto simp: set_fold_set_add invar_def wfs_def)
  moreover have "distinct (fold (\<lambda>a xs. set_add xs a) (newAnimations s4) (animations s4))"
    using i4 by (simp add: distinct_fold_set_add invar_def wfs_def)
  ultimately have "invar s5" unfolding s5_def using i4 by (simp add: inv_fields)
  then show ?thesis unfolding e by (rule inv_fields)
qed

lemma inv_innerLoop: "invar s \<Longrightarrow> invar (innerLoop ms s)"
  unfolding innerLoop_def by (intro inv_updateAnimations inv_fields)

lemma keeps_registration:
  "keeps s (onFrame a c s)"
  "keeps s (onComplete a c s)"
  "keeps s (onDestroy a c s)"
  "keeps s (snd (nextFrame a s))"
  "keeps s (snd (waitDestroy a s))"
  "keeps s (snd (waitCompletion a s))"
  "keeps s (upd a (\<lambda>i. i\<lparr> timeScale := x \<rparr>) s)"
  by (auto simp: keeps_def onFrame_def onComplete_def onDestroy_def nextFrame_def waitDestroy_def
      waitCompletion_def upd_def calls_def cbm_add_def cbm_get_def update_conv'
      split: option.splits)

lemma wf_registration:
  "wfs s \<Longrightarrow> wfs (onFrame a c s)"
  "wfs s \<Longrightarrow> wfs (onComplete a c s)"
  "wfs s \<Longrightarrow> wfs (snd (nextFrame a s))"
  "wfs s \<Longrightarrow> wfs (snd (waitDestroy a s))"
  "wfs s \<Longrightarrow> wfs (snd (waitCompletion a s))"
  "wfs s \<Longrightarrow> wfs (upd a (\<lambda>i. i\<lparr> timeScale := x \<rparr>) s)"
  by (auto simp: wfs_def onFrame_def onComplete_def nextFrame_def waitDestroy_def
      waitCompletion_def upd_def cbm_add_def cbm_get_def update_conv' set_add_def
      split: option.splits if_splits)

lemma inv_exec: "invar s \<Longrightarrow> op_ok (count s) x \<Longrightarrow> invar (exec x s)"
proof (cases x)
  case (Tick ms)
  assume "invar s"
  then show ?thesis using Tick by (simp add: inv_innerLoop)
next
  case (Do act)
  assume "invar s" "op_ok (count s) x"
  then show ?thesis using Do wf_run(3) [of s act] once_keeps [OF _ keeps_run(3), of s act]
    by (simp add: invar_def)
qed (auto simp: invar_def wf_registration wf_onDestroy intro: once_keeps keeps_registration)

lemma inv_run: "invar s \<Longrightarrow> invar (run ops s)"
  by (induction ops arbitrary: s) (auto simp: inv_exec)

lemma inv_init: "invar init"
proof -
  have "once init" by (simp add: once_def calls_def init_def)
  then show ?thesis by (simp add: invar_def wf_init)
qed

section \<open>Concrete runs\<close>

text \<open>
  A loop whose frame callback starts a second loop; the second loop's callback returns
  \<open>BREAK\<close>. \<open>leak_start\<close> is the state after the first tick, \<open>leak_mid\<close> the state of
  the second tick (at 32 ms) after its destroy pass and before its merge of
  \<open>newAnimations\<close>.
\<close>

definition leak_start :: state where
  "leak_start = run [Do (Loop (User 0 [Loop (User 1 [] True)] False)), Tick 16] init"

definition leak_mid :: state where
  "leak_mid =
     (let q = leak_start\<lparr> clock_timeOld := clock_time leak_start, clock_time := 32 / 1000,
                clock_deltaTime := 32 / 1000 - clock_time leak_start,
                clock_frame := clock_frame leak_start + 1, updating := True \<rparr>
      in destroyLoop 0 (fold visit (animations q) q))"

text \<open>
  A timed instance with a frame, a complete and a destroy callback, run to completion.
\<close>

definition kept_complete :: state where
  "kept_complete =
     run [Do (During (TNumber 1) (Some (User 0 [] False))), CallOnComplete 0 (User 1 [] False),
          CallOnDestroy 0 (User 2 [] False), Tick 2000] init"

text \<open>A loop on which \<open>nextFrame()\<close> is called, destroyed before the next tick.\<close>

definition dropped_promise :: state where
  "dropped_promise = run [Do (Loop (User 0 [] False)), CallNextFrame 0, Do (Destroy 0)] init"


section \<open>Claims settled by evaluation\<close>

text \<open>
  C1 (the part the code breaks). Instance 1 is created inside a frame callback during
  the first tick, so it passes through \<open>newAnimations\<close>, which \<open>updateAnimations\<close> never
  clears. In the second tick it is destroyed and the destroy pass removes it from
  \<open>animations\<close> (\<open>leak_mid\<close>); the merge at the end of the same tick adds it again, and
  it stays in the live set on every later tick, destroyed. It is not advanced again.
\<close>

theorem destroyed_instance_reenters_live_set:
  "animations leak_start = [0, 1] \<and> \<not> destroyed (heap leak_start 1) \<and>
   destroyed (heap leak_mid 1) \<and> animations leak_mid = [0] \<and> newAnimations leak_mid = [1, 2] \<and>
   animations (innerLoop 32 leak_start) = [0, 1, 2] \<and>
   destroyed (heap (innerLoop 32 leak_start) 1) \<and>
   animations (innerLoop 48 (innerLoop 32 leak_start)) = [0, 1, 2, 3] \<and>
   filter (\<lambda>e. e = Advance 1) (trace (innerLoop 48 (innerLoop 32 leak_start))) = [Advance 1]"
  unfolding leak_start_def leak_mid_def by code_simp

text \<open>
  C7 (the part the code breaks). After the tick in which instance 0 completes, the
  destroy pass has removed it from \<open>animations\<close> and has deleted its entries of
  \<open>frameCallbacks\<close>, \<open>nextFrameCallbacks\<close> and \<open>destroyCallbacks\<close>; its entry of
  \<open>completeCallbacks\<close> is still there.
\<close>

theorem complete_registry_not_cleared:
  "destroyed (heap kept_complete 0) \<and> animations kept_complete = [] \<and>
   destroyedAnimations kept_complete = [] \<and>
   cbm_get (frameCallbacks kept_complete) 0 = None \<and>
   cbm_get (nextFrameCallbacks kept_complete) 0 = None \<and>
   cbm_get (destroyCallbacks kept_complete) 0 = None \<and>
   cbm_get (completeCallbacks kept_complete) 0 = Some [User 1 [] False]"
  unfolding kept_complete_def by code_simp

section \<open>C9: ease resolution\<close>

text \<open>
  C9, as stated, fails: for a string that is not a key of the table, \<open>safeEase\<close> returns
  the result of the member access \<open>easing[ease]\<close> and not the identity. For \<open>'linear'\<close>
  that is \<open>undefined\<close>.
\<close>

theorem safeEase_invalid_name_counterexample:
  "safeEase (EaseString ''linear'') = EaseUndefined \<and>
   safeEase (EaseString ''linear'') \<noteq> Eased (\<lambda>x. x)"
  by (simp add: safeEase_def easing_def Object_prototype_def)

text \<open>
  C9, amended: \<open>safeEase\<close> returns the table entry for a name of the table, the supplied
  function for a function and the identity for any other value that is not a string
  (an omitted argument). A string that is not a name of the table is looked up all the
  same and yields the result of \<open>easing[ease]\<close>: the member of that name inherited
  from \<open>Object.prototype\<close> when there is one (\<open>'constructor'\<close>, \<open>'toString'\<close>, ...),
  \<open>undefined\<close> otherwise; in neither case the identity.
\<close>

theorem safeEase_resolution:
  "(n \<in> dom easing \<longrightarrow> (\<exists>g. easing n = Some g \<and> safeEase (EaseString n) = Eased g)) \<and>
   safeEase (EaseFunction f) = Eased f \<and>
   safeEase EaseOther = Eased (\<lambda>x. x) \<and>
   (n \<notin> dom easing \<longrightarrow>
      safeEase (EaseString n) =
        (if n \<in> set Object_prototype then Inherited n else EaseUndefined) \<and>
      safeEase (EaseString n) \<noteq> Eased (\<lambda>x. x))"
  by (auto simp: safeEase_def)

theorem safeEase_resolution_witness:
  "''out3'' \<in> dom easing \<and>
   safeEase (EaseString ''out3'') = Eased (\<lambda>x. let x = 1 - x in 1 - x * x * x) \<and>
   ''linear'' \<notin> dom easing \<and> safeEase (EaseString ''linear'') = EaseUndefined \<and>
   ''constructor'' \<notin> dom easing \<and>
   safeEase (EaseString ''constructor'') = Inherited ''constructor''"
proof -
  have a: "''out3'' \<in> dom easing" and b: "''linear'' \<notin> dom easing"
    and c: "''constructor'' \<notin> dom easing"
    by (simp_all add: easing_def dom_def)
  have e: "easing ''out3'' = Some (\<lambda>x. let x = 1 - x in 1 - x * x * x)"
    by (simp add: easing_def)
  from safeEase_resolution [of "''out3''"] a e
  have "safeEase (EaseString ''out3'') = Eased (\<lambda>x. let x = 1 - x in 1 - x * x * x)"
    by auto
  moreover from safeEase_resolution [of "''linear''"] b
  have "safeEase (EaseString ''linear'') = EaseUndefined"
    by (simp add: Object_prototype_def)
  moreover from safeEase_resolution [of "''constructor''"] c
  have "safeEase (EaseString ''constructor'') = Inherited ''constructor''"
    by (simp add: Object_prototype_def)
  ultimately show ?thesis using a b c by simp
qed

section \<open>C10: the tween scenario\<close>

text \<open>
  C10. \<open>tween(obj, {duration: 1}, {to: {value: 10}, ease: 'out3'})\<close> with \<open>obj.value = 0\<close>
  at creation: whenever the frame callback runs on an instance whose \<open>progress\<close> is
  \<open>1/2\<close>, on a target whose \<open>value\<close> is still a number, it sets \<open>value\<close> to
  \<open>out3(1/2) * 10 = 8.75\<close> and leaves the other properties alone; \<open>out3(x)\<close> is
  \<open>1 - (1 - x)^3\<close>.
\<close>

theorem tween_out3_half:
  assumes "progress anim = Some (1 / 2)" and "getprop target ''value'' = Num v"
  shows "\<exists>out3. easing ''out3'' = Some out3 \<and> (\<forall>x. out3 x = 1 - (1 - x) ^ 3) \<and>
     tween_callback
       (tween_bind [(''value'', Num 0)] None (Some [(''value'', Num 10)]) (EaseString ''out3''))
       anim target = Some (setprop target ''value'' (Num (out3 (1 / 2) * 10))) \<and>
     out3 (1 / 2) * 10 = 35 / 4"
proof -
  define out3 :: "real \<Rightarrow> real" where "out3 = (\<lambda>x. let x = 1 - x in 1 - x * x * x)"
  have e: "easing ''out3'' = Some out3" by (simp add: easing_def out3_def)
  have p: "\<forall>x. out3 x = 1 - (1 - x) ^ 3" by (simp add: out3_def Let_def power3_eq_cube)
  have v: "out3 (1 / 2) * 10 = 35 / 4" by (simp add: out3_def Let_def)
  have "tween_callback
       (tween_bind [(''value'', Num 0)] None (Some [(''value'', Num 10)]) (EaseString ''out3''))
       anim target = Some (setprop target ''value'' (Num (out3 (1 / 2) * 10)))"
    using assms e
    by (simp add: tween_callback_def tween_bind_def safeEase_def object_keys_def set_add_def
        snapshot_def getprop_def cloneValue_def lerp_val_def lerp_def Let_def mult.commute)
  with e p v show ?thesis by blast
qed

theorem tween_out3_half_witness:
  "progress \<lparr> startTime = 0, startFrame = 0, timeScale = 1, paused = False, time = 1 / 2,
       timeOld = 2 / 5, deltaTime = 1 / 10, duration = Finite 1, destroyed = False,
       frame = 5 \<rparr> = Some (1 / 2) \<and>
   getprop [(''value'', Num 3), (''name'', Str ''box'')] ''value'' = Num 3 \<and>
   tween_callback
     (tween_bind [(''value'', Num 0)] None (Some [(''value'', Num 10)]) (EaseString ''out3''))
     \<lparr> startTime = 0, startFrame = 0, timeScale = 1, paused = False, time = 1 / 2,
       timeOld = 2 / 5, deltaTime = 1 / 10, duration = Finite 1, destroyed = False,
       frame = 5 \<rparr>
     [(''value'', Num 3), (''name'', Str ''box'')]
   = Some [(''value'', Num (35 / 4)), (''name'', Str ''box'')]"
proof -
  let ?a = "\<lparr> startTime = 0, startFrame = 0, timeScale = 1, paused = False, time = 1 / 2,
       timeOld = 2 / 5, deltaTime = 1 / 10, duration = Finite 1, destroyed = False,
       frame = 5 \<rparr>"
  let ?t = "[(''value'', Num 3), (''name'', Str ''box'')]"
  have h1: "progress ?a = Some (1 / 2)" by (simp add: progress_def clamp_def)
  have h2: "getprop ?t ''value'' = Num 3" by (simp add: getprop_def)
  from tween_out3_half [OF h1 h2] obtain out3 :: "real \<Rightarrow> real" where
    "tween_callback
       (tween_bind [(''value'', Num 0)] None (Some [(''value'', Num 10)]) (EaseString ''out3''))
       ?a ?t = Some (setprop ?t ''value'' (Num (out3 (1 / 2) * 10)))"
    and "out3 (1 / 2) * 10 = 35 / 4" by blast
  then show ?thesis using h1 h2 by (simp add: setprop_def)
qed


section \<open>C2: complete callbacks\<close>


lemma calls_mem: "(a, c) \<in> set (calls k s) \<longleftrightarrow> Call k a c \<in> set (trace s)"
proof -
  have "(a, c) \<in> set (concat (map (call_of k) xs)) \<longleftrightarrow> Call k a c \<in> set xs" for xs
  proof (induction xs)
    case Nil
    show ?case by simp
  next
    case (Cons e xs)
    then show ?case by (cases e) auto
  qed
  then show ?thesis by (simp add: calls_def)
qed







subsection \<open>Callbacks leave the next-frame registry alone and only extend the trace\<close>

lemma cbrel_nextFrameCallbacks: "cbrel s s' \<Longrightarrow> nextFrameCallbacks s' = nextFrameCallbacks s"
  by (simp add: cbrel_def)

lemma cbrel_trace: "cbrel s s' \<Longrightarrow> set (trace s) \<subseteq> set (trace s')"
  by (auto simp: cbrel_def)


section \<open>The destroy pass reaches every pending instance\<close>

text \<open>What every step of a tick preserves about an instance \<open>b\<close> that is destroyed.\<close>

definition pres :: "aid \<Rightarrow> state \<Rightarrow> state \<Rightarrow> bool" where
  "pres b s s' \<longleftrightarrow>
     count s \<le> count s' \<and>
     (\<exists>ys. destroyedAnimations s' = destroyedAnimations s @ ys) \<and>
     (\<exists>ys. trace s' = trace s @ ys) \<and>
     (b < count s \<longrightarrow> destroyed (heap s b) \<longrightarrow>
        destroyed (heap s' b) \<and> map_of (destroyCallbacks s') b = map_of (destroyCallbacks s) b)"

lemma pres_refl: "pres b s s"
  by (simp add: pres_def)

lemma presD:
  assumes "pres b s s'"
  shows "count s \<le> count s'"
    and "\<exists>ys. destroyedAnimations s' = destroyedAnimations s @ ys"
    and "\<exists>ys. trace s' = trace s @ ys"
    and "b < count s \<Longrightarrow> destroyed (heap s b) \<Longrightarrow> destroyed (heap s' b)"
    and "b < count s \<Longrightarrow> destroyed (heap s b) \<Longrightarrow>
         map_of (destroyCallbacks s') b = map_of (destroyCallbacks s) b"
  using assms unfolding pres_def by blast+

lemma pres_trans:
  assumes st: "pres b s t" and tu: "pres b t u"
  shows "pres b s u"
proof -
  obtain ys zs where "destroyedAnimations t = destroyedAnimations s @ ys"
    "destroyedAnimations u = destroyedAnimations t @ zs"
    using presD(2) [OF st] presD(2) [OF tu] by blast
  then have 1: "\<exists>ys. destroyedAnimations u = destroyedAnimations s @ ys" by simp
  obtain ys' zs' where "trace t = trace s @ ys'" "trace u = trace t @ zs'"
    using presD(3) [OF st] presD(3) [OF tu] by blast
  then have 2: "\<exists>ys. trace u = trace s @ ys" by simp
  have 3: "destroyed (heap u b) \<and> map_of (destroyCallbacks u) b = map_of (destroyCallbacks s) b"
    if b: "b < count s" and d: "destroyed (heap s b)"
  proof -
    have b': "b < count t" using b presD(1) [OF st] by simp
    have d': "destroyed (heap t b)" using presD(4) [OF st b d] .
    show ?thesis using presD(4,5) [OF tu b' d'] presD(5) [OF st b d] by simp
  qed
  show ?thesis unfolding pres_def using presD(1) [OF st] presD(1) [OF tu] 1 2 3 by simp
qed

lemma pres_cbrel: "cbrel s s' \<Longrightarrow> pres b s s'"
  unfolding pres_def cbrel_def by simp

lemma pres_steps:
  "pres b s (advance a s)"
  "pres b s (upd a (\<lambda>i. i\<lparr> frame := n i \<rparr>) s)"
  "pres b s (s\<lparr> nextFrameCallbacks := m \<rparr>)"
  "pres b s (destroy a s)"
  by (auto simp: pres_def advance_def upd_def destroy_def set_add_def)


lemma pres_updateAnimation: "pres b s (updateAnimation a s)"
proof (cases "0 \<le> time (heap s a) + clock_deltaTime s * timeScale (heap s a)")
  case False
  then show ?thesis by (simp add: updateAnimation_delayed pres_steps)
next
  case True
  show ?thesis
  proof (rule updateAnimation_run [OF True])
    fix s2 s3 d1 s4 d2 s5
    assume s2: "s2 = upd a (\<lambda>i. i\<lparr> frame := frame i + 1 \<rparr>) (advance a s)"
      and s3: "s3 = fst (runCbs OnFrame a (or_nothing (cbm_get (frameCallbacks s2) a)) (s2, False))"
      and s4: "s4 = fst (runCbs OnNextFrame a (or_nothing (cbm_get (nextFrameCallbacks s3) a))
         (s3\<lparr> nextFrameCallbacks := cbm_delete (nextFrameCallbacks s3) a \<rparr>, d1))"
      and s5: "s5 = (if complete (heap s4 a)
             then fst (runCbs OnComplete a (or_nothing (cbm_get (completeCallbacks s4) a)) (s4, False))
             else s4)"
      and u: "updateAnimation a s = (if d2 \<or> complete (heap s5 a) then destroy a s5 else s5)"
    have p2: "pres b s s2" unfolding s2 by (rule pres_trans [OF pres_steps(1) pres_steps(2)])
    have p3: "pres b s2 s3" unfolding s3 by (rule pres_cbrel [OF cbrel_runCbs])
    have p4: "pres b s3 s4"
      unfolding s4 by (rule pres_trans [OF pres_steps(3) pres_cbrel [OF cbrel_runCbs]])
    have p5: "pres b s4 s5" unfolding s5 by (simp add: pres_refl pres_cbrel [OF cbrel_runCbs])
    have p6: "pres b s5 (updateAnimation a s)" unfolding u by (simp add: pres_refl pres_steps)
    show ?thesis
      by (rule pres_trans [OF p2 pres_trans [OF p3 pres_trans [OF p4 pres_trans [OF p5 p6]]]])
  qed
qed

lemma pres_fold_visit: "pres b s (fold visit xs s)"
proof (induction xs arbitrary: s)
  case Nil
  show ?case by (simp add: pres_refl)
next
  case (Cons a xs)
  have "pres b s (visit a s)" by (simp add: visit_def pres_refl pres_updateAnimation)
  then show ?case using Cons.IH [of "visit a s"] pres_trans by auto
qed


lemma trace_destroyAnimation: "set (trace s) \<subseteq> set (trace (destroyAnimation a s))"
proof -
  have "cbrel (detach a s) (destroyAnimation a s)"
    unfolding destroyAnimation_eq by (rule cbrel_runCbs)
  then have "set (trace (detach a s)) \<subseteq> set (trace (destroyAnimation a s))"
    by (auto simp: cbrel_def)
  then show ?thesis by (simp add: detach_def)
qed

lemma trace_destroyLoop: "set (trace s) \<subseteq> set (trace (destroyLoop i s))"
proof (induction i s rule: destroyLoop.induct)
  case (1 i s)
  show ?case
  proof (cases "i < length (destroyedAnimations s)")
    case True
    then show ?thesis
      using 1 [OF True] trace_destroyAnimation [of s "destroyedAnimations s ! i"]
      by (simp add: destroyLoop.simps [of i s])
  next
    case False
    then show ?thesis by (simp add: destroyLoop.simps [of i s])
  qed
qed






section \<open>C8: destroy is idempotent\<close>










section \<open>C6: replacing the occupant of a target\<close>

lemma get_put_map [simp]: "get_map m (put_map m g s) = g"
  by (cases m) (simp_all add: get_map_def put_map_def)

lemma get_map_simps [simp]:
  "get_map m (destroy a s) = get_map m s"
  "get_map m (onDestroy a c s) = get_map m s"
  "get_map m (s\<lparr> closures := n \<rparr>) = get_map m s"
  by (auto simp: get_map_def destroy_def upd_def onDestroy_def split: mapname.splits option.splits)

lemma heap_put_map [simp]: "heap (put_map m g s) = heap s"
  by (cases m) (simp_all add: put_map_def)

lemma heap_onDestroy [simp]: "heap (onDestroy a c s) = heap s"
  by (simp add: onDestroy_def split: option.splits)

lemma destroyedAnimations_simps [simp]:
  "destroyedAnimations (put_map m g s) = destroyedAnimations s"
  "destroyedAnimations (onDestroy a c s) = destroyedAnimations s"
  by (auto simp: put_map_def onDestroy_def split: mapname.splits option.splits)

lemma trace_simps [simp]:
  "trace (put_map m g s) = trace s"
  "trace (onDestroy a c s) = trace s"
  "trace (destroy a s) = trace s"
  by (auto simp: put_map_def onDestroy_def destroy_def upd_def split: mapname.splits option.splits)







section \<open>Relations across the passes of a tick\<close>

text \<open>
  A relation that holds across the elementary steps of the update pass holds across
  the pass; likewise for the destroy pass. \<open>A\<close> is the set of instances the pass may
  visit.
\<close>

lemma pass_rel:
  fixes R :: "state \<Rightarrow> state \<Rightarrow> bool" and A :: "aid set"
  assumes rf: "\<And>s. R s s"
    and tr: "\<And>s t u. R s t \<Longrightarrow> R t u \<Longrightarrow> R s u"
    and cbs: "\<And>k a cs s d. a \<in> A \<Longrightarrow> k \<noteq> Immediate \<Longrightarrow> k \<noteq> OnDestroy \<Longrightarrow>
        R s (fst (runCbs k a cs (s, d)))"
    and adv: "\<And>a s. a \<in> A \<Longrightarrow> R s (advance a s)"
    and frm: "\<And>a s. a \<in> A \<Longrightarrow> R s (upd a (\<lambda>i. i\<lparr> frame := frame i + 1 \<rparr>) s)"
    and nfc: "\<And>a s. a \<in> A \<Longrightarrow>
        R s (s\<lparr> nextFrameCallbacks := cbm_delete (nextFrameCallbacks s) a \<rparr>)"
    and dst: "\<And>a s. a \<in> A \<Longrightarrow> R s (destroy a s)"
  shows "a \<in> A \<Longrightarrow> R s (updateAnimation a s)"
    and "set xs \<subseteq> A \<Longrightarrow> R s (fold visit xs s)"
proof -
  have u: "R s (updateAnimation a s)" if a: "a \<in> A" for a s
  proof (cases "0 \<le> time (heap s a) + clock_deltaTime s * timeScale (heap s a)")
    case False
    then show ?thesis using a by (simp add: updateAnimation_delayed adv)
  next
    case True
    show ?thesis
    proof (rule updateAnimation_run [OF True])
      fix s2 s3 d1 s4 d2 s5
      assume s2: "s2 = upd a (\<lambda>i. i\<lparr> frame := frame i + 1 \<rparr>) (advance a s)"
        and s3: "s3 = fst (runCbs OnFrame a (or_nothing (cbm_get (frameCallbacks s2) a)) (s2, False))"
        and s4: "s4 = fst (runCbs OnNextFrame a (or_nothing (cbm_get (nextFrameCallbacks s3) a))
           (s3\<lparr> nextFrameCallbacks := cbm_delete (nextFrameCallbacks s3) a \<rparr>, d1))"
        and s5: "s5 = (if complete (heap s4 a)
               then fst (runCbs OnComplete a (or_nothing (cbm_get (completeCallbacks s4) a)) (s4, False))
               else s4)"
        and e: "updateAnimation a s = (if d2 \<or> complete (heap s5 a) then destroy a s5 else s5)"
      have p2: "R s s2" unfolding s2 by (rule tr [OF adv [OF a] frm [OF a]])
      have p3: "R s2 s3" unfolding s3 by (rule cbs [OF a]) simp_all
      have p4: "R s3 s4" unfolding s4 by (rule tr [OF nfc [OF a] cbs [OF a]]) simp_all
      have p5: "R s4 s5" unfolding s5 using cbs [OF a, of OnComplete] by (simp add: rf)
      have p6: "R s5 (updateAnimation a s)" unfolding e by (simp add: rf dst [OF a])
      show ?thesis by (rule tr [OF p2 tr [OF p3 tr [OF p4 tr [OF p5 p6]]]])
    qed
  qed
  show "a \<in> A \<Longrightarrow> R s (updateAnimation a s)" by (rule u)
  show "set xs \<subseteq> A \<Longrightarrow> R s (fold visit xs s)"
  proof (induction xs arbitrary: s)
    case Nil
    show ?case by (simp add: rf)
  next
    case (Cons a xs)
    have "R s (visit a s)" using Cons.prems by (simp add: visit_def rf u)
    moreover have "R (visit a s) (fold visit xs (visit a s))" using Cons by simp
    ultimately show ?case using tr by auto
  qed
qed

lemma destroy_rel:
  fixes R :: "state \<Rightarrow> state \<Rightarrow> bool"
  assumes rf: "\<And>s. R s s"
    and tr: "\<And>s t u. R s t \<Longrightarrow> R t u \<Longrightarrow> R s u"
    and cbs: "\<And>a cs s d. R s (fst (runCbs OnDestroy a cs (s, d)))"
    and det: "\<And>a s. R s (detach a s)"
  shows "R s (destroyAnimation a s)" and "R s (destroyLoop i s)"
proof -
  have d: "R s (destroyAnimation a s)" for a s
    unfolding destroyAnimation_eq by (rule tr [OF det cbs])
  show "R s (destroyAnimation a s)" by (rule d)
  show "R s (destroyLoop i s)"
  proof (induction i s rule: destroyLoop.induct)
    case (1 i s)
    show ?case
    proof (cases "i < length (destroyedAnimations s)")
      case True
      have "R s (destroyLoop (Suc i) (destroyAnimation (destroyedAnimations s ! i) s))"
        by (rule tr [OF d 1 [OF True]])
      then show ?thesis using True by (simp add: destroyLoop.simps [of i s])
    next
      case False
      then show ?thesis by (simp add: destroyLoop.simps [of i s] rf)
    qed
  qed
qed








text \<open>While a tick is running, every instance created joins \<open>newAnimations\<close>.\<close>

definition joins :: "state \<Rightarrow> state \<Rightarrow> bool" where
  "joins s s' \<longleftrightarrow>
     count s \<le> count s' \<and>
     (updating s \<longrightarrow>
        updating s' \<and> set (newAnimations s) \<subseteq> set (newAnimations s') \<and>
        (\<forall>b. count s \<le> b \<longrightarrow> b < count s' \<longrightarrow> b \<in> set (newAnimations s')))"

lemma joins_refl: "joins s s"
  by (simp add: joins_def)

lemma joins_trans:
  assumes st: "joins s t" and tu: "joins t u"
  shows "joins s u"
proof -
  have c: "count s \<le> count t" "count t \<le> count u" using st tu by (simp_all add: joins_def)
  have "updating u \<and> set (newAnimations s) \<subseteq> set (newAnimations u) \<and>
      (\<forall>b. count s \<le> b \<longrightarrow> b < count u \<longrightarrow> b \<in> set (newAnimations u))" if u: "updating s"
  proof -
    have t: "updating t" "set (newAnimations s) \<subseteq> set (newAnimations t)"
      "\<And>b. count s \<le> b \<Longrightarrow> b < count t \<Longrightarrow> b \<in> set (newAnimations t)"
      using st u unfolding joins_def by blast+
    have v: "updating u" "set (newAnimations t) \<subseteq> set (newAnimations u)"
      "\<And>b. count t \<le> b \<Longrightarrow> b < count u \<Longrightarrow> b \<in> set (newAnimations u)"
      using tu t(1) unfolding joins_def by blast+
    have "b \<in> set (newAnimations u)" if "count s \<le> b" "b < count u" for b
    proof (cases "b < count t")
      case True
      then show ?thesis using t(3) [OF that(1)] v(2) by blast
    next
      case False
      then show ?thesis using v(3) [of b] that(2) by simp
    qed
    then show ?thesis using t(2) v(1,2) by blast
  qed
  then show ?thesis using c unfolding joins_def by simp
qed

lemma joins_same:
  "count s' = count s \<Longrightarrow> updating s' = updating s \<Longrightarrow> newAnimations s' = newAnimations s \<Longrightarrow>
   joins s s'"
  by (simp add: joins_def)

lemma joins_new: "joins s (snd (new_AnimationInstance c s))"
  by (auto simp: joins_def new_AnimationInstance_def Let_def addAnimation_def onFrame_def
      set_add_def le_less_Suc_eq split: option.splits)

lemma joins_during_create: "joins s (snd (during_create p c s))"
  by (auto simp: joins_def during_create_def upd_def new_AnimationInstance_def Let_def
      addAnimation_def onFrame_def set_add_def le_less_Suc_eq split: option.splits)

lemma joins_prims:
  "joins s (put_map m g s)"
  "joins s (upd a f s)"
  "joins s (destroy a s)"
  "joins s (log_call k a c s)"
  "joins s (onDestroy a co s)"
  "joins s (s\<lparr> closures := n \<rparr>)"
  "joins s (advance a s)"
  "joins s (s\<lparr> nextFrameCallbacks := nf \<rparr>)"
  "joins s (detach a s)"
  by (rule joins_same;
      simp add: put_map_def upd_def destroy_def log_call_def onDestroy_def advance_def detach_def
        split: mapname.splits option.splits)+

lemma joins_cancelTarget: "joins s (cancelTarget m t s)"
  by (simp add: cancelTarget_def joins_refl joins_prims split: option.splits)

lemma joins_AnimationMap_set: "joins s (AnimationMap_set m t a s)"
  by (rule joins_same; simp add: AnimationMap_set_def Let_def put_map_def destroy_def upd_def
      onDestroy_def split: option.splits mapname.splits)

lemma joins_run:
  "joins s (fst (runCb c s))"
  "joins s (runActions xs s)"
  "action_ok (count s) x \<Longrightarrow> joins s (runAction x s)"
  by (rule run_rel [where R = joins];
      (rule joins_refl joins_prims joins_new joins_during_create joins_cancelTarget
        joins_AnimationMap_set | assumption | erule (1) joins_trans))+

lemma joins_runCbs: "joins s (fst (runCbs k a cs (s, d)))"
  by (rule runCbs_rel [where R = joins];
      (rule joins_refl joins_prims joins_run | erule (1) joins_trans))

lemma joins_pass: "joins s (fold visit xs s)"
  by (rule pass_rel(2) [where R = joins and A = UNIV];
      (rule joins_refl joins_prims joins_runCbs | erule (1) joins_trans | simp))

lemma joins_destroyLoop: "joins s (destroyLoop i s)"
  by (rule destroy_rel(2) [where R = joins];
      (rule joins_refl joins_prims joins_runCbs | erule (1) joins_trans))

lemma joins_count: "joins s s' \<Longrightarrow> count s \<le> count s'"
  by (simp add: joins_def)

text \<open>The parts of a tick.\<close>

definition tick_begin :: "real \<Rightarrow> state \<Rightarrow> state" where
  "tick_begin ms s =
     s\<lparr> clock_timeOld := clock_time s, clock_time := ms / 1000,
        clock_deltaTime := ms / 1000 - clock_time s, clock_frame := clock_frame s + 1,
        updating := True \<rparr>"

definition tick_pass :: "real \<Rightarrow> state \<Rightarrow> state" where
  "tick_pass ms s = destroyLoop 0 (fold visit (animations s) (tick_begin ms s))"

lemma innerLoop_eq:
  "innerLoop ms s =
   (tick_pass ms s)\<lparr> destroyedAnimations := [],
      animations := fold (\<lambda>a xs. set_add xs a) (newAnimations (tick_pass ms s))
                      (animations (tick_pass ms s)),
      updating := False \<rparr>"
  by (simp add: innerLoop_def updateAnimations_def Let_def tick_pass_def tick_begin_def)

lemma joins_tick_pass: "joins (tick_begin ms s) (tick_pass ms s)"
  unfolding tick_pass_def by (rule joins_trans [OF joins_pass joins_destroyLoop])

lemma count_innerLoop: "count s \<le> count (innerLoop ms s)"
  using joins_count [OF joins_tick_pass, of ms s] by (simp add: innerLoop_eq tick_begin_def)



text \<open>What the frame of a tick leaves alone, and the invariant across its passes.\<close>

lemma fields_tick:
  "heap (tick_begin ms s) = heap s" "count (tick_begin ms s) = count s"
  "trace (tick_begin ms s) = trace s" "clock_deltaTime (tick_begin ms s) = ms / 1000 - clock_time s"
  "nextFrameCallbacks (tick_begin ms s) = nextFrameCallbacks s"
  "destroyedAnimations (tick_begin ms s) = destroyedAnimations s"
  "heap (innerLoop ms s) = heap (tick_pass ms s)" "trace (innerLoop ms s) = trace (tick_pass ms s)"
  "count (innerLoop ms s) = count (tick_pass ms s)"
  "nextFrameCallbacks (innerLoop ms s) = nextFrameCallbacks (tick_pass ms s)"
  "destroyedAnimations (innerLoop ms s) = []"
  by (simp_all add: tick_begin_def innerLoop_eq)

lemma inv_tick_begin: "invar s \<Longrightarrow> invar (tick_begin ms s)"
  unfolding tick_begin_def by (intro inv_fields(1) inv_fields(4))

lemma inv_tick_pass:
  assumes "invar s"
  shows "invar (fold visit (animations s) (tick_begin ms s))" and "invar (tick_pass ms s)"
proof -
  have "\<forall>a \<in> set (animations s). a < count (tick_begin ms s)"
    using assms by (simp add: invar_def wfs_def tick_begin_def)
  moreover have "animations (tick_begin ms s) = animations s" by (simp add: tick_begin_def)
  ultimately show "invar (fold visit (animations s) (tick_begin ms s))"
    using inv_fold_visit [OF inv_tick_begin [OF assms], of "animations s" ms] by simp
  then show "invar (tick_pass ms s)" unfolding tick_pass_def by (rule inv_destroyLoop)
qed

text \<open>The destroy pass only detaches instances of \<open>destroyedAnimations\<close>.\<close>

lemma destroyLoop_rel:
  fixes R :: "state \<Rightarrow> state \<Rightarrow> bool"
  assumes rf: "\<And>s. R s s"
    and tr: "\<And>s t u. R s t \<Longrightarrow> R t u \<Longrightarrow> R s u"
    and cbs: "\<And>a cs s d. R s (fst (runCbs OnDestroy a cs (s, d)))"
    and det: "\<And>a s. a \<in> set (destroyedAnimations s) \<Longrightarrow> R s (detach a s)"
  shows "R s (destroyLoop i s)"
proof (induction i s rule: destroyLoop.induct)
  case (1 i s)
  show ?case
  proof (cases "i < length (destroyedAnimations s)")
    case True
    have "R s (destroyAnimation (destroyedAnimations s ! i) s)"
      unfolding destroyAnimation_eq by (rule tr [OF det [OF nth_mem [OF True]] cbs])
    then have "R s (destroyLoop (Suc i) (destroyAnimation (destroyedAnimations s ! i) s))"
      by (rule tr [OF _ 1 [OF True]])
    then show ?thesis using True by (simp add: destroyLoop.simps [of i s])
  next
    case False
    then show ?thesis by (simp add: destroyLoop.simps [of i s] rf)
  qed
qed

lemma count_exec: "op_ok (count s) x \<Longrightarrow> count s \<le> count (exec x s)"
proof (cases x)
  case (Tick ms)
  then show ?thesis by (simp add: count_innerLoop)
next
  case (Do act)
  assume "op_ok (count s) x"
  then show ?thesis using Do joins_count [OF joins_run(3), of s act] by simp
qed (simp_all add: onFrame_def onComplete_def onDestroy_def nextFrame_def waitDestroy_def
    waitCompletion_def upd_def split: option.splits)




text \<open>The state of the update pass of a tick at the moment it reaches instance \<open>b\<close>.\<close>

definition reached :: "aid \<Rightarrow> real \<Rightarrow> state \<Rightarrow> state" where
  "reached b ms s = fold visit (takeWhile (\<lambda>x. x \<noteq> b) (animations s)) (tick_begin ms s)"

lemma pass_split:
  assumes "b \<in> set xs"
  shows "fold visit xs s =
         fold visit (tl (dropWhile (\<lambda>x. x \<noteq> b) xs))
           (visit b (fold visit (takeWhile (\<lambda>x. x \<noteq> b) xs) s))"
proof -
  have ne: "dropWhile (\<lambda>x. x \<noteq> b) xs \<noteq> []" using assms by (simp add: dropWhile_eq_Nil_conv)
  then have "hd (dropWhile (\<lambda>x. x \<noteq> b) xs) = b" using hd_dropWhile [OF ne] by simp
  then have "dropWhile (\<lambda>x. x \<noteq> b) xs = b # tl (dropWhile (\<lambda>x. x \<noteq> b) xs)"
    using ne by (metis list.collapse)
  then have "xs = takeWhile (\<lambda>x. x \<noteq> b) xs @ b # tl (dropWhile (\<lambda>x. x \<noteq> b) xs)"
    by (metis takeWhile_dropWhile_id)
  then have "fold visit xs s =
      fold visit (takeWhile (\<lambda>x. x \<noteq> b) xs @ b # tl (dropWhile (\<lambda>x. x \<noteq> b) xs)) s"
    by simp
  then show ?thesis by simp
qed

lemma split_notin:
  "b \<notin> set (takeWhile (\<lambda>x. x \<noteq> b) xs)"
  "distinct xs \<Longrightarrow> b \<in> set xs \<Longrightarrow> b \<notin> set (tl (dropWhile (\<lambda>x. x \<noteq> b) xs))"
proof -
  show "b \<notin> set (takeWhile (\<lambda>x. x \<noteq> b) xs)" by (auto dest: set_takeWhileD)
  assume d: "distinct xs" and m: "b \<in> set xs"
  have ne: "dropWhile (\<lambda>x. x \<noteq> b) xs \<noteq> []" using m by (simp add: dropWhile_eq_Nil_conv)
  then have "hd (dropWhile (\<lambda>x. x \<noteq> b) xs) = b" using hd_dropWhile [OF ne] by simp
  then have e: "dropWhile (\<lambda>x. x \<noteq> b) xs = b # tl (dropWhile (\<lambda>x. x \<noteq> b) xs)"
    using ne by (metis list.collapse)
  have "distinct (dropWhile (\<lambda>x. x \<noteq> b) xs)" using d by (rule distinct_dropWhile)
  then show "b \<notin> set (tl (dropWhile (\<lambda>x. x \<noteq> b) xs))" using e by (metis distinct.simps(2))
qed

lemma trace_pass: "set (trace s) \<subseteq> set (trace (fold visit xs s))"
  using presD(3) [OF pres_fold_visit [of 0 s xs]] by auto

lemma advance_logged: "Advance a \<in> set (trace (updateAnimation a s))"
proof (cases "0 \<le> time (heap s a) + clock_deltaTime s * timeScale (heap s a)")
  case False
  then show ?thesis by (simp add: updateAnimation_delayed advance_def upd_def)
next
  case True
  show ?thesis
  proof (rule updateAnimation_run [OF True])
    fix s2 s3 d1 s4 d2 s5
    assume s2: "s2 = upd a (\<lambda>i. i\<lparr> frame := frame i + 1 \<rparr>) (advance a s)"
      and s3: "s3 = fst (runCbs OnFrame a (or_nothing (cbm_get (frameCallbacks s2) a)) (s2, False))"
      and s4: "s4 = fst (runCbs OnNextFrame a (or_nothing (cbm_get (nextFrameCallbacks s3) a))
         (s3\<lparr> nextFrameCallbacks := cbm_delete (nextFrameCallbacks s3) a \<rparr>, d1))"
      and s5: "s5 = (if complete (heap s4 a)
             then fst (runCbs OnComplete a (or_nothing (cbm_get (completeCallbacks s4) a)) (s4, False))
             else s4)"
      and e: "updateAnimation a s = (if d2 \<or> complete (heap s5 a) then destroy a s5 else s5)"
    have "Advance a \<in> set (trace s2)" by (simp add: s2 advance_def upd_def)
    then have "Advance a \<in> set (trace s3)"
      unfolding s3 using cbrel_trace [OF cbrel_runCbs] by blast
    then have "Advance a \<in> set (trace (s3\<lparr> nextFrameCallbacks := cbm_delete (nextFrameCallbacks s3) a \<rparr>))"
      by simp
    then have "Advance a \<in> set (trace s4)"
      unfolding s4 using cbrel_trace [OF cbrel_runCbs] by blast
    then have "Advance a \<in> set (trace s5)"
      unfolding s5 using cbrel_trace [OF cbrel_runCbs, of s4 OnComplete a _ False] by auto
    then show ?thesis unfolding e by simp
  qed
qed

lemma trace_innerLoop: "trace (innerLoop ms s) = trace (tick_pass ms s)"
  by (simp add: innerLoop_eq)

lemma tick_pass_split:
  assumes "b \<in> set (animations s)"
  shows "tick_pass ms s =
     destroyLoop 0 (fold visit (tl (dropWhile (\<lambda>x. x \<noteq> b) (animations s)))
       (visit b (reached b ms s)))"
  unfolding tick_pass_def reached_def using pass_split [OF assms] by simp

lemma advanced_when_reached:
  assumes b: "b \<in> set (animations s)"
    and r: "\<not> destroyed (heap (reached b ms s) b)" "\<not> paused (heap (reached b ms s) b)"
  shows "Advance b \<in> set (trace (innerLoop ms s))"
proof -
  have "Advance b \<in> set (trace (visit b (reached b ms s)))"
    using r by (simp add: visit_def advance_logged)
  then have "Advance b \<in> set (trace (fold visit (tl (dropWhile (\<lambda>x. x \<noteq> b) (animations s)))
       (visit b (reached b ms s))))"
    using trace_pass by blast
  then show ?thesis
    unfolding trace_innerLoop tick_pass_split [OF b] using trace_destroyLoop by blast
qed


section \<open>C4: time is the sum of the deltas\<close>

text \<open>Steps that leave the time and the time scale of instance \<open>a\<close> alone.\<close>

definition tsame :: "aid \<Rightarrow> state \<Rightarrow> state \<Rightarrow> bool" where
  "tsame a s s' \<longleftrightarrow>
     count s \<le> count s' \<and> clock_deltaTime s' = clock_deltaTime s \<and>
     (a < count s \<longrightarrow>
        time (heap s' a) = time (heap s a) \<and> timeScale (heap s' a) = timeScale (heap s a))"

lemma tsame_refl: "tsame a s s"
  by (simp add: tsame_def)

lemma tsame_trans: "tsame a s t \<Longrightarrow> tsame a t u \<Longrightarrow> tsame a s u"
  by (simp add: tsame_def)

lemma tsame_cbrel: "cbrel s s' \<Longrightarrow> tsame a s s'"
  unfolding tsame_def cbrel_def by simp

lemma tsame_steps:
  "b \<noteq> a \<Longrightarrow> tsame a s (advance b s)"
  "tsame a s (upd b (\<lambda>i. i\<lparr> frame := n i \<rparr>) s)"
  "tsame a s (s\<lparr> nextFrameCallbacks := m \<rparr>)"
  "tsame a s (destroy b s)"
  "tsame a s (detach b s)"
  by (auto simp: tsame_def advance_def upd_def destroy_def detach_def)

lemma tsame_pass: "a \<notin> set xs \<Longrightarrow> tsame a s (fold visit xs s)"
  by (rule pass_rel(2) [where R = "tsame a" and A = "{b. b \<noteq> a}"])
    (auto intro: tsame_refl tsame_cbrel cbrel_runCbs tsame_steps elim: tsame_trans)

lemma tsame_destroyLoop: "tsame a s (destroyLoop i s)"
  by (rule destroy_rel(2) [where R = "tsame a"])
    (auto intro: tsame_refl tsame_cbrel cbrel_runCbs tsame_steps elim: tsame_trans)

text \<open>The advance of \<open>a\<close> itself.\<close>

definition tstep :: "aid \<Rightarrow> state \<Rightarrow> state \<Rightarrow> bool" where
  "tstep a s s' \<longleftrightarrow>
     count s \<le> count s' \<and> clock_deltaTime s' = clock_deltaTime s \<and>
     time (heap s' a) = time (heap s a) + clock_deltaTime s * timeScale (heap s a) \<and>
     timeScale (heap s' a) = timeScale (heap s a)"

lemma tstep_updateAnimation:
  assumes a: "a < count s"
  shows "tstep a s (updateAnimation a s)"
proof (cases "0 \<le> time (heap s a) + clock_deltaTime s * timeScale (heap s a)")
  case False
  then show ?thesis by (simp add: updateAnimation_delayed tstep_def advance_def upd_def)
next
  case True
  show ?thesis
  proof (rule updateAnimation_run [OF True])
    fix s2 s3 d1 s4 d2 s5
    assume s2: "s2 = upd a (\<lambda>i. i\<lparr> frame := frame i + 1 \<rparr>) (advance a s)"
      and s3: "s3 = fst (runCbs OnFrame a (or_nothing (cbm_get (frameCallbacks s2) a)) (s2, False))"
      and s4: "s4 = fst (runCbs OnNextFrame a (or_nothing (cbm_get (nextFrameCallbacks s3) a))
         (s3\<lparr> nextFrameCallbacks := cbm_delete (nextFrameCallbacks s3) a \<rparr>, d1))"
      and s5: "s5 = (if complete (heap s4 a)
             then fst (runCbs OnComplete a (or_nothing (cbm_get (completeCallbacks s4) a)) (s4, False))
             else s4)"
      and e: "updateAnimation a s = (if d2 \<or> complete (heap s5 a) then destroy a s5 else s5)"
    have t2: "tstep a s s2" by (simp add: s2 tstep_def advance_def upd_def)
    have a2: "a < count s2" using a by (simp add: s2 advance_def)
    have p3: "tsame a s2 s3" unfolding s3 by (rule tsame_cbrel [OF cbrel_runCbs])
    have p4: "tsame a s3 s4"
      unfolding s4 by (rule tsame_trans [OF tsame_steps(3) tsame_cbrel [OF cbrel_runCbs]])
    have p5: "tsame a s4 s5" unfolding s5 by (simp add: tsame_refl tsame_cbrel [OF cbrel_runCbs])
    have p6: "tsame a s5 (updateAnimation a s)" unfolding e by (simp add: tsame_refl tsame_steps)
    have "tsame a s2 (updateAnimation a s)"
      by (rule tsame_trans [OF p3 tsame_trans [OF p4 tsame_trans [OF p5 p6]]])
    then show ?thesis using t2 a2 by (simp add: tstep_def tsame_def)
  qed
qed

text \<open>An instance is advanced by a tick when the pass finds it in the live set, not
  destroyed and not paused.\<close>

definition advanced :: "aid \<Rightarrow> real \<Rightarrow> state \<Rightarrow> bool" where
  "advanced a ms s \<longleftrightarrow>
     a \<in> set (animations s) \<and> \<not> destroyed (heap (reached a ms s) a) \<and>
     \<not> paused (heap (reached a ms s) a)"

lemma time_innerLoop:
  assumes w: "wfs s" and a: "a < count s"
  shows "time (heap (innerLoop ms s) a) =
         time (heap s a) +
           (if advanced a ms s then (ms / 1000 - clock_time s) * timeScale (heap s a) else 0)"
    and "timeScale (heap (innerLoop ms s) a) = timeScale (heap s a)"
proof -
  define s0 where "s0 = tick_begin ms s"
  have h0: "heap s0 = heap s" "count s0 = count s" "clock_deltaTime s0 = ms / 1000 - clock_time s"
    "animations s0 = animations s"
    by (simp_all add: s0_def tick_begin_def)
  have hi: "heap (innerLoop ms s) = heap (tick_pass ms s)" by (simp add: innerLoop_eq)
  have r: "time (heap (tick_pass ms s) a) =
         time (heap s a) +
           (if advanced a ms s then (ms / 1000 - clock_time s) * timeScale (heap s a) else 0) \<and>
      timeScale (heap (tick_pass ms s) a) = timeScale (heap s a)"
  proof (cases "a \<in> set (animations s)")
    case False
    have "tsame a s0 (tick_pass ms s)"
      unfolding tick_pass_def s0_def [symmetric]
      by (rule tsame_trans [OF tsame_pass [OF False] tsame_destroyLoop])
    then show ?thesis using False a h0 by (simp add: tsame_def advanced_def)
  next
    case True
    define r where "r = reached a ms s"
    define post where "post = tl (dropWhile (\<lambda>x. x \<noteq> a) (animations s))"
    have d: "distinct (animations s)" using w by (simp add: wfs_def)
    have e: "tick_pass ms s = destroyLoop 0 (fold visit post (visit a r))"
      by (simp add: tick_pass_split [OF True] r_def post_def)
    have p1: "tsame a s0 r"
      unfolding r_def reached_def s0_def [symmetric] by (rule tsame_pass) (rule split_notin(1))
    have ar: "a < count r" using p1 a h0 by (simp add: tsame_def)
    have p3: "tsame a (visit a r) (tick_pass ms s)"
      unfolding e post_def
      by (rule tsame_trans [OF tsame_pass [OF split_notin(2) [OF d True]] tsame_destroyLoop])
    show ?thesis
    proof (cases "\<not> destroyed (heap r a) \<and> \<not> paused (heap r a)")
      case adv: True
      then have v: "visit a r = updateAnimation a r" by (simp add: visit_def)
      have t: "tstep a r (visit a r)" unfolding v using ar by (rule tstep_updateAnimation)
      have av: "a < count (visit a r)" using t ar by (simp add: tstep_def)
      have "advanced a ms s" using adv True by (simp add: advanced_def r_def)
      moreover have "time (heap (tick_pass ms s) a) = time (heap (visit a r) a)"
        "timeScale (heap (tick_pass ms s) a) = timeScale (heap (visit a r) a)"
        using p3 av by (simp_all add: tsame_def)
      moreover have "time (heap (visit a r) a) =
          time (heap r a) + clock_deltaTime r * timeScale (heap r a)"
        "timeScale (heap (visit a r) a) = timeScale (heap r a)"
        using t by (simp_all add: tstep_def)
      moreover have "time (heap r a) = time (heap s a)" "timeScale (heap r a) = timeScale (heap s a)"
        "clock_deltaTime r = ms / 1000 - clock_time s"
        using p1 a h0 by (simp_all add: tsame_def)
      ultimately show ?thesis by simp
    next
      case skip: False
      then have v: "visit a r = r" by (auto simp: visit_def)
      have "tsame a r (tick_pass ms s)" using p3 by (simp add: v)
      then have "tsame a s0 (tick_pass ms s)" using p1 tsame_trans by blast
      moreover have "\<not> advanced a ms s" using skip by (simp add: advanced_def r_def)
      ultimately show ?thesis using a h0 by (simp add: tsame_def)
    qed
  qed
  show "time (heap (innerLoop ms s) a) =
         time (heap s a) +
           (if advanced a ms s then (ms / 1000 - clock_time s) * timeScale (heap s a) else 0)"
    using r by (simp add: hi)
  show "timeScale (heap (innerLoop ms s) a) = timeScale (heap s a)" using r by (simp add: hi)
qed

text \<open>The clock deltas of the ticks of a run that advance instance \<open>a\<close>, in order.\<close>

fun deltas :: "aid \<Rightarrow> op list \<Rightarrow> state \<Rightarrow> real list" where
  "deltas a [] s = []"
| "deltas a (x # xs) s =
     (case x of
        Tick ms \<Rightarrow> if advanced a ms s then [ms / 1000 - clock_time s] else []
      | _ \<Rightarrow> [])
     @ deltas a xs (if op_ok (count s) x then exec x s else s)"

lemma time_exec:
  assumes ok: "op_ok (count s) x" and w: "wfs s" and a: "a < count s"
    and ns: "\<And>v. x \<noteq> SetTimeScale a v"
  shows "time (heap (exec x s) a) =
         time (heap s a) +
           sum_list (map (\<lambda>d. d * timeScale (heap s a)) (deltas a [x] s))"
    and "timeScale (heap (exec x s) a) = timeScale (heap s a)"
proof -
  have "time (heap (exec x s) a) =
         time (heap s a) +
           sum_list (map (\<lambda>d. d * timeScale (heap s a)) (deltas a [x] s)) \<and>
      timeScale (heap (exec x s) a) = timeScale (heap s a)"
  proof (cases x)
    case (Tick ms)
    then show ?thesis using time_innerLoop [OF w a, of ms] by simp
  next
    case (Do act)
    then show ?thesis using ok a cbrel_heap(1,2) [OF cbrel_run(3), of s act a] by simp
  next
    case (SetTimeScale b v)
    then have "b \<noteq> a" using ns by blast
    then show ?thesis using SetTimeScale by (simp add: upd_def)
  qed (simp_all add: onFrame_def onComplete_def onDestroy_def nextFrame_def waitDestroy_def
      waitCompletion_def split: option.splits)
  then show "time (heap (exec x s) a) =
         time (heap s a) +
           sum_list (map (\<lambda>d. d * timeScale (heap s a)) (deltas a [x] s))"
    and "timeScale (heap (exec x s) a) = timeScale (heap s a)" by simp_all
qed

lemma time_run:
  assumes "invar s" "a < count s" "\<forall>v. SetTimeScale a v \<notin> set ops"
  shows "time (heap (run ops s) a) =
         time (heap s a) + sum_list (map (\<lambda>d. d * timeScale (heap s a)) (deltas a ops s)) \<and>
         timeScale (heap (run ops s) a) = timeScale (heap s a)"
  using assms
proof (induction ops arbitrary: s)
  case Nil
  then show ?case by simp
next
  case (Cons x ops)
  show ?case
  proof (cases "op_ok (count s) x")
    case True
    have ns: "\<And>v. x \<noteq> SetTimeScale a v" using Cons.prems(3) by auto
    have w: "wfs s" using Cons.prems(1) by (simp add: invar_def)
    note t = time_exec [OF True w Cons.prems(2) ns]
    have i: "invar (exec x s)" using Cons.prems(1) True by (rule inv_exec)
    have a': "a < count (exec x s)" using count_exec [OF True] Cons.prems(2) by simp
    have r: "\<forall>v. SetTimeScale a v \<notin> set ops" using Cons.prems(3) by simp
    have d: "deltas a (x # ops) s = deltas a [x] s @ deltas a ops (exec x s)"
      using True by simp
    show ?thesis
      using Cons.IH [OF i a' r] t True unfolding d by (simp add: algebra_simps)
  next
    case False
    have r: "\<forall>v. SetTimeScale a v \<notin> set ops" using Cons.prems(3) by simp
    have "deltas a (x # ops) s = deltas a ops s"
      using False by (cases x) simp_all
    then show ?thesis using Cons.IH [OF Cons.prems(1,2) r] False by simp
  qed
qed

text \<open>
  C4. Take an existing instance whose time is 0 and any continuation of the run (ticks
  and API calls, callbacks included) that never assigns its \<open>timeScale\<close>. After the
  continuation the instance's time is the sum, over the ticks that advanced it, of the
  tick's clock delta times the time scale. A tick advances the instance when its pass
  finds it live (in the live set, not destroyed) and not paused; the other ticks
  contribute nothing. Numbers are reals here: the sum is exact.
\<close>

theorem time_is_sum_of_deltas:
  "a < count (run before init) \<and> time (heap (run before init) a) = 0 \<and>
   (\<forall>v. SetTimeScale a v \<notin> set ops) \<longrightarrow>
     time (heap (run ops (run before init)) a) =
       (\<Sum>d \<leftarrow> deltas a ops (run before init). d * timeScale (heap (run before init) a)) \<and>
     timeScale (heap (run ops (run before init)) a) = timeScale (heap (run before init) a)"
proof
  assume h: "a < count (run before init) \<and> time (heap (run before init) a) = 0 \<and>
   (\<forall>v. SetTimeScale a v \<notin> set ops)"
  have i: "invar (run before init)" using inv_init by (rule inv_run)
  show "time (heap (run ops (run before init)) a) =
       (\<Sum>d \<leftarrow> deltas a ops (run before init). d * timeScale (heap (run before init) a)) \<and>
     timeScale (heap (run ops (run before init)) a) = timeScale (heap (run before init) a)"
    using time_run [OF i, of a ops] h by simp
qed

text \<open>A loop with time scale 2, ticked three times and paused during the second tick.\<close>

definition paused_run :: state where
  "paused_run = run [Do (Loop (User 0 [] False)), SetTimeScale 0 2] init"

definition paused_ops :: "op list" where
  "paused_ops = [Tick 100, Do (SetPaused 0 True), Tick 200, Do (SetPaused 0 False), Tick 400]"

theorem time_is_sum_of_deltas_witness:
  "0 < count paused_run \<and> time (heap paused_run 0) = 0 \<and>
   timeScale (heap paused_run 0) = 2 \<and>
   deltas 0 paused_ops paused_run = [1 / 10, 1 / 5] \<and>
   time (heap (run paused_ops paused_run) 0) = 1 / 10 * 2 + 1 / 5 * 2"
proof -
  have h1: "0 < count paused_run" unfolding paused_run_def by code_simp
  have h2: "time (heap paused_run 0) = 0" unfolding paused_run_def by code_simp
  have h3: "\<forall>v. SetTimeScale 0 v \<notin> set paused_ops" by (simp add: paused_ops_def)
  have h4: "timeScale (heap paused_run 0) = 2" unfolding paused_run_def by code_simp
  have h5: "deltas 0 paused_ops paused_run = [1 / 10, 1 / 5]"
    unfolding paused_run_def paused_ops_def by code_simp
  show ?thesis
    using time_is_sum_of_deltas [of 0 "[Do (Loop (User 0 [] False)), SetTimeScale 0 2]" paused_ops,
        folded paused_run_def] h1 h2 h3 h4 h5 by simp
qed

section \<open>C5: instances created during a tick\<close>



























section \<open>C3: the next-frame promise\<close>

text \<open>The next-frame callbacks of an instance: those invoked so far, in order, and those
  registered and not yet invoked.\<close>

definition resolved :: "aid \<Rightarrow> state \<Rightarrow> cb list" where
  "resolved a s = map snd (filter (\<lambda>p. fst p = a) (calls OnNextFrame s))"

definition pending :: "aid \<Rightarrow> state \<Rightarrow> cb list" where
  "pending a s = or_nothing (cbm_get (nextFrameCallbacks s) a)"

lemma resolved_runCbs:
  "k \<noteq> Immediate \<Longrightarrow>
   resolved a (fst (runCbs k b cs (s, d))) =
     resolved a s @ (if k = OnNextFrame \<and> b = a then cs else [])"
  by (simp add: resolved_def calls_runCbs filter_map comp_def)

lemma resolved_trace: "trace s' = trace s \<Longrightarrow> resolved a s' = resolved a s"
  by (simp add: resolved_def calls_def)

lemma resolved_advance: "resolved a (advance b s) = resolved a s"
  by (simp add: resolved_def calls_def advance_def upd_def)

text \<open>Steps that neither invoke nor remove a next-frame callback of \<open>a\<close>.\<close>

definition waits :: "aid \<Rightarrow> state \<Rightarrow> state \<Rightarrow> bool" where
  "waits a s s' \<longleftrightarrow>
     cbm_get (nextFrameCallbacks s') a = cbm_get (nextFrameCallbacks s) a \<and>
     resolved a s' = resolved a s"

lemma waits_refl: "waits a s s"
  by (simp add: waits_def)

lemma waits_trans: "waits a s t \<Longrightarrow> waits a t u \<Longrightarrow> waits a s u"
  by (simp add: waits_def)

lemma waits_runCbs:
  "k \<noteq> Immediate \<Longrightarrow> k \<noteq> OnNextFrame \<or> b \<noteq> a \<Longrightarrow> waits a s (fst (runCbs k b cs (s, d)))"
proof -
  have "cbrel s (fst (runCbs k b cs (s, d)))" by (rule cbrel_runCbs)
  then have "nextFrameCallbacks (fst (runCbs k b cs (s, d))) = nextFrameCallbacks s"
    by (rule cbrel_nextFrameCallbacks)
  then show "k \<noteq> Immediate \<Longrightarrow> k \<noteq> OnNextFrame \<or> b \<noteq> a \<Longrightarrow> ?thesis"
    by (auto simp: waits_def resolved_runCbs)
qed

lemma waits_steps:
  "waits a s (advance b s)"
  "waits a s (upd b f s)"
  "waits a s (destroy b s)"
  "b \<noteq> a \<Longrightarrow> waits a s (s\<lparr> nextFrameCallbacks := cbm_delete (nextFrameCallbacks s) b \<rparr>)"
  "b \<noteq> a \<Longrightarrow> waits a s (detach b s)"
  by (simp_all add: waits_def resolved_def calls_def advance_def upd_def destroy_def detach_def)

lemma waits_pass: "a \<notin> set xs \<Longrightarrow> waits a s (fold visit xs s)"
  by (rule pass_rel(2) [where R = "waits a" and A = "{b. b \<noteq> a}"])
    (auto intro: waits_refl waits_runCbs waits_steps elim: waits_trans)

text \<open>The successful advance of \<open>a\<close> invokes every pending next-frame callback of \<open>a\<close>,
  once, in the order of registration, and empties the registry entry.\<close>

lemma resolved_updateAnimation:
  assumes t: "0 \<le> time (heap s a) + clock_deltaTime s * timeScale (heap s a)"
  shows "resolved a (updateAnimation a s) = resolved a s @ pending a s"
    and "cbm_get (nextFrameCallbacks (updateAnimation a s)) a = None"
proof -
  have "resolved a (updateAnimation a s) = resolved a s @ pending a s \<and>
      cbm_get (nextFrameCallbacks (updateAnimation a s)) a = None"
  proof (rule updateAnimation_run [OF t])
    fix s2 s3 d1 s4 d2 s5
    assume s2: "s2 = upd a (\<lambda>i. i\<lparr> frame := frame i + 1 \<rparr>) (advance a s)"
      and s3: "s3 = fst (runCbs OnFrame a (or_nothing (cbm_get (frameCallbacks s2) a)) (s2, False))"
      and s4: "s4 = fst (runCbs OnNextFrame a (or_nothing (cbm_get (nextFrameCallbacks s3) a))
         (s3\<lparr> nextFrameCallbacks := cbm_delete (nextFrameCallbacks s3) a \<rparr>, d1))"
      and s5: "s5 = (if complete (heap s4 a)
             then fst (runCbs OnComplete a (or_nothing (cbm_get (completeCallbacks s4) a)) (s4, False))
             else s4)"
      and u: "updateAnimation a s = (if d2 \<or> complete (heap s5 a) then destroy a s5 else s5)"
    have w2: "waits a s s2" unfolding s2 by (rule waits_trans [OF waits_steps(1) waits_steps(2)])
    have w3: "waits a s2 s3" unfolding s3 by (rule waits_runCbs) simp_all
    have w: "waits a s s3" by (rule waits_trans [OF w2 w3])
    define s3' where "s3' = s3\<lparr> nextFrameCallbacks := cbm_delete (nextFrameCallbacks s3) a \<rparr>"
    have e4: "s4 = fst (runCbs OnNextFrame a (pending a s) (s3', d1))"
      using s4 w by (simp add: s3'_def pending_def waits_def)
    have "resolved a s3' = resolved a s3" by (simp add: s3'_def resolved_def calls_def)
    then have r4: "resolved a s4 = resolved a s @ pending a s"
      using w by (simp add: e4 resolved_runCbs waits_def)
    have "cbrel s3' s4" unfolding e4 by (rule cbrel_runCbs)
    then have n4: "cbm_get (nextFrameCallbacks s4) a = None"
      using cbrel_nextFrameCallbacks [of s3' s4] by (simp add: s3'_def)
    have w5: "waits a s4 s5" unfolding s5 by (simp add: waits_refl waits_runCbs)
    have w6: "waits a s5 (updateAnimation a s)" unfolding u by (simp add: waits_refl waits_steps)
    have "waits a s4 (updateAnimation a s)" by (rule waits_trans [OF w5 w6])
    then show ?thesis using r4 n4 by (simp add: waits_def)
  qed
  then show "resolved a (updateAnimation a s) = resolved a s @ pending a s"
    and "cbm_get (nextFrameCallbacks (updateAnimation a s)) a = None" by simp_all
qed

text \<open>The destroy pass invokes no next-frame callback; it empties the registry entries
  of the instances it processes, which are in \<open>destroyedAnimations\<close>.\<close>

definition settles :: "aid \<Rightarrow> state \<Rightarrow> state \<Rightarrow> bool" where
  "settles a s s' \<longleftrightarrow>
     (\<exists>ys. destroyedAnimations s' = destroyedAnimations s @ ys) \<and>
     resolved a s' = resolved a s \<and>
     (cbm_get (nextFrameCallbacks s') a = cbm_get (nextFrameCallbacks s) a \<or>
      a \<in> set (destroyedAnimations s') \<and> cbm_get (nextFrameCallbacks s') a = None)"

lemma settles_refl: "settles a s s"
  by (simp add: settles_def)

lemma settlesD:
  assumes "settles a s s'"
  shows "\<exists>ys. destroyedAnimations s' = destroyedAnimations s @ ys"
    and "resolved a s' = resolved a s"
    and "cbm_get (nextFrameCallbacks s') a = cbm_get (nextFrameCallbacks s) a \<or>
      a \<in> set (destroyedAnimations s') \<and> cbm_get (nextFrameCallbacks s') a = None"
  using assms unfolding settles_def by blast+

lemma settles_trans:
  assumes st: "settles a s t" and tu: "settles a t u"
  shows "settles a s u"
proof -
  obtain ys zs where p: "destroyedAnimations t = destroyedAnimations s @ ys"
    "destroyedAnimations u = destroyedAnimations t @ zs"
    using settlesD(1) [OF st] settlesD(1) [OF tu] by blast
  then have 1: "\<exists>ys. destroyedAnimations u = destroyedAnimations s @ ys" by simp
  have 2: "resolved a u = resolved a s" using settlesD(2) [OF st] settlesD(2) [OF tu] by simp
  have 3: "cbm_get (nextFrameCallbacks u) a = cbm_get (nextFrameCallbacks s) a \<or>
      a \<in> set (destroyedAnimations u) \<and> cbm_get (nextFrameCallbacks u) a = None"
    using settlesD(3) [OF st] settlesD(3) [OF tu] p by auto
  show ?thesis unfolding settles_def using 1 2 3 by simp
qed

lemma settles_runCbs: "settles a s (fst (runCbs OnDestroy b cs (s, d)))"
proof -
  have c: "cbrel s (fst (runCbs OnDestroy b cs (s, d)))" by (rule cbrel_runCbs)
  then have "\<exists>ys. destroyedAnimations (fst (runCbs OnDestroy b cs (s, d))) = destroyedAnimations s @ ys"
    by (simp add: cbrel_def)
  then show ?thesis
    using cbrel_nextFrameCallbacks [OF c] by (simp add: settles_def resolved_runCbs)
qed

lemma settles_detach: "b \<in> set (destroyedAnimations s) \<Longrightarrow> settles a s (detach b s)"
  by (simp add: settles_def detach_def resolved_def calls_def)

lemma settles_destroyLoop: "settles a s (destroyLoop i s)"
  by (rule destroyLoop_rel [where R = "settles a"])
    (auto intro: settles_refl settles_runCbs settles_detach elim: settles_trans)

lemma cleared_destroyLoop:
  assumes "wfs s" "i \<le> j" "j < length (destroyedAnimations (destroyLoop i s))"
  shows "cbm_get (nextFrameCallbacks (destroyLoop i s)) (destroyedAnimations (destroyLoop i s) ! j)
         = None"
  using assms
proof (induction i s rule: destroyLoop.induct)
  case (1 i s)
  show ?case
  proof (cases "i < length (destroyedAnimations s)")
    case False
    then have "destroyLoop i s = s" by (simp add: destroyLoop.simps [of i s])
    then show ?thesis using 1(3,4) False by simp
  next
    case True
    define b where "b = destroyedAnimations s ! i"
    define s' where "s' = destroyAnimation b s"
    define e where "e = destroyLoop (Suc i) s'"
    have ee: "destroyLoop i s = e"
      using True by (simp add: destroyLoop.simps [of i s] b_def s'_def e_def)
    have w': "wfs s'" unfolding s'_def using 1(2) by (rule wf_destroyAnimation)
    show ?thesis
    proof (cases "i = j")
      case False
      then have "Suc i \<le> j" using 1(3) by simp
      then show ?thesis
        using 1(1) [OF True, folded b_def s'_def, OF w'] 1(4) unfolding ee e_def by simp
    next
      case ij: True
      have c: "cbrel (detach b s) s'" unfolding s'_def destroyAnimation_eq by (rule cbrel_runCbs)
      have n': "cbm_get (nextFrameCallbacks s') b = None"
        using cbrel_nextFrameCallbacks [OF c] by (simp add: detach_def)
      obtain ys where ys: "destroyedAnimations s' = destroyedAnimations s @ ys"
        using c by (auto simp: cbrel_def detach_def)
      have se: "settles b s' e" unfolding e_def by (rule settles_destroyLoop)
      obtain zs where zs: "destroyedAnimations e = destroyedAnimations s' @ zs"
        using settlesD(1) [OF se] by blast
      have "destroyedAnimations e ! j = b"
        using True ij by (simp add: zs ys nth_append b_def)
      moreover have "cbm_get (nextFrameCallbacks e) b = None"
        using settlesD(3) [OF se] n' by auto
      ultimately show ?thesis by (simp add: ee)
    qed
  qed
qed

text \<open>An instance found destroyed has been marked for the destroy pass, unless it was
  destroyed already.\<close>

definition marks :: "aid \<Rightarrow> state \<Rightarrow> state \<Rightarrow> bool" where
  "marks a s s' \<longleftrightarrow>
     count s \<le> count s' \<and>
     (\<exists>ys. destroyedAnimations s' = destroyedAnimations s @ ys) \<and>
     (a < count s \<longrightarrow>
        (destroyed (heap s a) \<longrightarrow> destroyed (heap s' a)) \<and>
        (destroyed (heap s' a) \<longrightarrow> destroyed (heap s a) \<or> a \<in> set (destroyedAnimations s')))"

lemma marks_refl: "marks a s s"
  by (simp add: marks_def)

lemma marksD:
  assumes "marks a s s'"
  shows "count s \<le> count s'"
    and "\<exists>ys. destroyedAnimations s' = destroyedAnimations s @ ys"
    and "a < count s \<Longrightarrow> destroyed (heap s a) \<Longrightarrow> destroyed (heap s' a)"
    and "a < count s \<Longrightarrow> destroyed (heap s' a) \<Longrightarrow>
         destroyed (heap s a) \<or> a \<in> set (destroyedAnimations s')"
  using assms unfolding marks_def by blast+

lemma marks_trans:
  assumes st: "marks a s t" and tu: "marks a t u"
  shows "marks a s u"
proof -
  obtain ys zs where p: "destroyedAnimations t = destroyedAnimations s @ ys"
    "destroyedAnimations u = destroyedAnimations t @ zs"
    using marksD(2) [OF st] marksD(2) [OF tu] by blast
  then have 1: "\<exists>ys. destroyedAnimations u = destroyedAnimations s @ ys" by simp
  have c: "count s \<le> count t" "count t \<le> count u" using marksD(1) [OF st] marksD(1) [OF tu] .
  have 2: "destroyed (heap u a)" if "a < count s" "destroyed (heap s a)"
    using marksD(3) [OF tu] marksD(3) [OF st that] that(1) c by simp
  have 3: "destroyed (heap s a) \<or> a \<in> set (destroyedAnimations u)"
    if a: "a < count s" and d: "destroyed (heap u a)"
  proof -
    have "a < count t" using a c by simp
    then have "destroyed (heap t a) \<or> a \<in> set (destroyedAnimations u)"
      using marksD(4) [OF tu _ d] by simp
    then show ?thesis using marksD(4) [OF st a] p by auto
  qed
  show ?thesis unfolding marks_def using c 1 2 3 by auto
qed

lemma marks_same:
  "count s' = count s \<Longrightarrow> destroyedAnimations s' = destroyedAnimations s \<Longrightarrow>
   destroyed (heap s' a) = destroyed (heap s a) \<Longrightarrow> marks a s s'"
  by (simp add: marks_def)

lemma marks_destroy: "marks a s (destroy b s)"
  by (auto simp: marks_def destroy_def upd_def set_add_def)

lemma marks_new: "marks a s (snd (new_AnimationInstance c s))"
  by (auto simp: marks_def new_AnimationInstance_def Let_def addAnimation_def onFrame_def
      split: option.splits)

lemma marks_during_create: "marks a s (snd (during_create p c s))"
  by (auto simp: marks_def during_create_def upd_def new_AnimationInstance_def Let_def
      addAnimation_def onFrame_def split: option.splits)

lemma marks_prims:
  "marks a s (put_map m g s)"
  "marks a s (upd b (\<lambda>i. i\<lparr> paused := v \<rparr>) s)"
  "marks a s (log_call k b c s)"
  "marks a s (onDestroy b co s)"
  "marks a s (s\<lparr> closures := n \<rparr>)"
  "marks a s (s\<lparr> nextFrameCallbacks := nf \<rparr>)"
  "marks a s (detach b s)"
  "marks a s (advance b s)"
  "marks a s (upd b (\<lambda>i. i\<lparr> frame := fr i \<rparr>) s)"
  by (rule marks_same;
      simp add: put_map_def upd_def log_call_def onDestroy_def advance_def detach_def
        split: mapname.splits option.splits)+

lemma marks_cancelTarget: "marks a s (cancelTarget m t s)"
  by (simp add: cancelTarget_def marks_refl marks_destroy split: option.splits)

lemma marks_AnimationMap_set: "marks a s (AnimationMap_set m t b s)"
  unfolding AnimationMap_set_def Let_def
  by (rule marks_trans [where t = "case get_map m s t of None \<Rightarrow> s | Some old \<Rightarrow> destroy old s"])
    (auto simp: marks_refl marks_destroy intro!: marks_same
      simp: put_map_def onDestroy_def split: option.splits mapname.splits)

lemma marks_run:
  "marks a s (fst (runCb c s))"
  "marks a s (runActions xs s)"
  "action_ok (count s) x \<Longrightarrow> marks a s (runAction x s)"
  by (rule run_rel [where R = "marks a"];
      (rule marks_refl marks_prims marks_destroy marks_new marks_during_create marks_cancelTarget
        marks_AnimationMap_set | assumption | erule (1) marks_trans))+

lemma marks_runCbs: "marks a s (fst (runCbs k b cs (s, d)))"
  by (rule runCbs_rel [where R = "marks a"];
      (rule marks_refl marks_prims marks_run | erule (1) marks_trans))

lemma marks_pass: "marks a s (fold visit xs s)"
  by (rule pass_rel(2) [where R = "marks a" and A = UNIV];
      (rule marks_refl marks_prims marks_destroy marks_runCbs | erule (1) marks_trans | simp))

lemma marks_destroyLoop: "marks a s (destroyLoop i s)"
  by (rule destroy_rel(2) [where R = "marks a"];
      (rule marks_refl marks_prims marks_runCbs | erule (1) marks_trans))

text \<open>A tick resolves the next-frame promises of \<open>a\<close> when it advances \<open>a\<close> and leaves its
  time at zero or more.\<close>

definition resolves :: "aid \<Rightarrow> real \<Rightarrow> state \<Rightarrow> bool" where
  "resolves a ms s \<longleftrightarrow>
     advanced a ms s \<and>
     0 \<le> time (heap s a) + (ms / 1000 - clock_time s) * timeScale (heap s a)"

lemma pass_resolves:
  assumes w: "wfs s" and a: "a < count s" and r: "resolves a ms s"
  shows "resolved a (fold visit (animations s) (tick_begin ms s)) = resolved a s @ pending a s"
    and "cbm_get (nextFrameCallbacks (fold visit (animations s) (tick_begin ms s))) a = None"
proof -
  define s0 where "s0 = tick_begin ms s"
  define q where "q = reached a ms s"
  define post where "post = tl (dropWhile (\<lambda>x. x \<noteq> a) (animations s))"
  have m: "a \<in> set (animations s)" and l: "\<not> destroyed (heap q a)" "\<not> paused (heap q a)"
    and t: "0 \<le> time (heap s a) + (ms / 1000 - clock_time s) * timeScale (heap s a)"
    using r by (simp_all add: resolves_def advanced_def q_def)
  have d: "distinct (animations s)" using w by (simp add: wfs_def)
  have e: "fold visit (animations s) s0 = fold visit post (updateAnimation a q)"
    using pass_split [OF m, of s0] l by (simp add: q_def reached_def s0_def post_def visit_def)
  have w1: "waits a s0 q"
    unfolding q_def reached_def s0_def [symmetric] by (rule waits_pass) (rule split_notin(1))
  have t1: "tsame a s0 q"
    unfolding q_def reached_def s0_def [symmetric] by (rule tsame_pass) (rule split_notin(1))
  have tq: "0 \<le> time (heap q a) + clock_deltaTime q * timeScale (heap q a)"
    using t1 a t by (simp add: tsame_def s0_def fields_tick)
  have w3: "waits a (updateAnimation a q) (fold visit post (updateAnimation a q))"
    unfolding post_def by (rule waits_pass) (rule split_notin(2) [OF d m])
  have "resolved a q = resolved a s" "pending a q = pending a s"
    using w1 by (simp_all add: waits_def pending_def s0_def fields_tick
        resolved_trace [of "tick_begin ms s" s])
  then show "resolved a (fold visit (animations s) (tick_begin ms s)) = resolved a s @ pending a s"
    and "cbm_get (nextFrameCallbacks (fold visit (animations s) (tick_begin ms s))) a = None"
    using w3 resolved_updateAnimation [OF tq] unfolding s0_def [symmetric] e
    by (simp_all add: waits_def)
qed

lemma pass_waits:
  assumes w: "wfs s" and a: "a < count s" and r: "\<not> resolves a ms s"
  shows "waits a (tick_begin ms s) (fold visit (animations s) (tick_begin ms s))"
proof (cases "a \<in> set (animations s)")
  case False
  then show ?thesis by (rule waits_pass)
next
  case m: True
  define s0 where "s0 = tick_begin ms s"
  define q where "q = reached a ms s"
  define post where "post = tl (dropWhile (\<lambda>x. x \<noteq> a) (animations s))"
  have d: "distinct (animations s)" using w by (simp add: wfs_def)
  have e: "fold visit (animations s) s0 = fold visit post (visit a q)"
    using pass_split [OF m, of s0] by (simp add: q_def reached_def s0_def post_def)
  have w1: "waits a s0 q"
    unfolding q_def reached_def s0_def [symmetric] by (rule waits_pass) (rule split_notin(1))
  have t1: "tsame a s0 q"
    unfolding q_def reached_def s0_def [symmetric] by (rule tsame_pass) (rule split_notin(1))
  have w2: "waits a q (visit a q)"
  proof (cases "\<not> destroyed (heap q a) \<and> \<not> paused (heap q a)")
    case False
    then have "visit a q = q" by (auto simp: visit_def)
    then show ?thesis by (simp add: waits_refl)
  next
    case True
    then have "advanced a ms s" using m by (simp add: advanced_def q_def)
    then have "time (heap s a) + (ms / 1000 - clock_time s) * timeScale (heap s a) < 0"
      using r by (simp add: resolves_def)
    then have "time (heap q a) + clock_deltaTime q * timeScale (heap q a) < 0"
      using t1 a by (simp add: tsame_def s0_def fields_tick)
    then have "visit a q = advance a q" using True by (simp add: visit_def updateAnimation_delayed)
    then show ?thesis by (simp add: waits_steps)
  qed
  have w3: "waits a (visit a q) (fold visit post (visit a q))"
    unfolding post_def by (rule waits_pass) (rule split_notin(2) [OF d m])
  show ?thesis
    unfolding s0_def [symmetric] e by (rule waits_trans [OF w1 waits_trans [OF w2 w3]])
qed

lemma marks_tick: "marks a (tick_begin ms s) (tick_pass ms s)"
  unfolding tick_pass_def by (rule marks_trans [OF marks_pass marks_destroyLoop])

lemma cleared_tick:
  assumes i: "invar s" and m: "a \<in> set (destroyedAnimations (tick_pass ms s))"
  shows "cbm_get (nextFrameCallbacks (tick_pass ms s)) a = None"
proof -
  have w: "wfs (fold visit (animations s) (tick_begin ms s))"
    using inv_tick_pass(1) [OF i] by (simp add: invar_def)
  obtain j where "j < length (destroyedAnimations (tick_pass ms s))"
    "destroyedAnimations (tick_pass ms s) ! j = a"
    using m by (auto simp: in_set_conv_nth)
  then show ?thesis
    using cleared_destroyLoop [OF w, of 0 j] unfolding tick_pass_def by simp
qed

lemma nextFrame_tick:
  assumes i: "invar s" and a: "a < count s"
  shows "resolves a ms s \<Longrightarrow>
           resolved a (innerLoop ms s) = resolved a s @ pending a s \<and>
           cbm_get (nextFrameCallbacks (innerLoop ms s)) a = None"
    and "\<not> resolves a ms s \<Longrightarrow> resolved a (innerLoop ms s) = resolved a s"
    and "\<not> resolves a ms s \<Longrightarrow> \<not> destroyed (heap (innerLoop ms s) a) \<Longrightarrow>
           cbm_get (nextFrameCallbacks (innerLoop ms s)) a = cbm_get (nextFrameCallbacks s) a"
    and "\<not> resolves a ms s \<Longrightarrow> cbm_get (nextFrameCallbacks s) a = None \<Longrightarrow>
           cbm_get (nextFrameCallbacks (innerLoop ms s)) a = None"
    and "destroyed (heap s a) \<longrightarrow> a \<in> set (destroyedAnimations s) \<Longrightarrow>
         destroyed (heap (innerLoop ms s) a) \<Longrightarrow>
           cbm_get (nextFrameCallbacks (innerLoop ms s)) a = None"
    and "destroyed (heap s a) \<Longrightarrow> destroyed (heap (innerLoop ms s) a) \<and> \<not> resolves a ms s"
proof -
  define p where "p = fold visit (animations s) (tick_begin ms s)"
  define e where "e = tick_pass ms s"
  have w: "wfs s" using i by (simp add: invar_def)
  have ep: "e = destroyLoop 0 p" by (simp add: e_def p_def tick_pass_def)
  have se: "settles a p e" unfolding ep by (rule settles_destroyLoop)
  have we: "wfs e" using inv_tick_pass(2) [OF i] by (simp add: invar_def e_def)
  have mk: "marks a (tick_begin ms s) e" unfolding e_def by (rule marks_tick)
  have a0: "a < count (tick_begin ms s)" using a by (simp add: fields_tick)
  show "resolved a (innerLoop ms s) = resolved a s @ pending a s \<and>
        cbm_get (nextFrameCallbacks (innerLoop ms s)) a = None" if r: "resolves a ms s"
    using pass_resolves [OF w a r, folded p_def] settlesD(2,3) [OF se]
    by (auto simp: fields_tick e_def [symmetric] resolved_trace [of "innerLoop ms s" e])
  have wp: "waits a (tick_begin ms s) p" if "\<not> resolves a ms s"
    unfolding p_def using w a that by (rule pass_waits)
  have f: "resolved a p = resolved a s"
    "cbm_get (nextFrameCallbacks p) a = cbm_get (nextFrameCallbacks s) a"
    if "\<not> resolves a ms s"
    using wp [OF that]
    by (simp_all add: waits_def fields_tick resolved_trace [of "tick_begin ms s" s])
  show "resolved a (innerLoop ms s) = resolved a s" if r: "\<not> resolves a ms s"
    using f(1) [OF r] settlesD(2) [OF se]
    by (simp add: fields_tick e_def [symmetric] resolved_trace [of "innerLoop ms s" e])
  show "cbm_get (nextFrameCallbacks (innerLoop ms s)) a = cbm_get (nextFrameCallbacks s) a"
    if r: "\<not> resolves a ms s" and l: "\<not> destroyed (heap (innerLoop ms s) a)"
  proof -
    have "a \<notin> set (destroyedAnimations e)"
      using we l by (auto simp: wfs_def fields_tick e_def)
    then show ?thesis
      using settlesD(3) [OF se] f(2) [OF r] by (simp add: fields_tick e_def)
  qed
  show "cbm_get (nextFrameCallbacks (innerLoop ms s)) a = None"
    if r: "\<not> resolves a ms s" and n: "cbm_get (nextFrameCallbacks s) a = None"
    using settlesD(3) [OF se] f(2) [OF r] n by (auto simp: fields_tick e_def)
  show "cbm_get (nextFrameCallbacks (innerLoop ms s)) a = None"
    if al: "destroyed (heap s a) \<longrightarrow> a \<in> set (destroyedAnimations s)"
      and de: "destroyed (heap (innerLoop ms s) a)"
  proof -
    have de': "destroyed (heap e a)" using de by (simp add: fields_tick e_def)
    obtain ys where ys: "destroyedAnimations e = destroyedAnimations (tick_begin ms s) @ ys"
      using marksD(2) [OF mk] by blast
    have "a \<in> set (destroyedAnimations e)"
      using marksD(4) [OF mk a0 de'] al ys by (auto simp: fields_tick)
    then show ?thesis
      using cleared_tick [OF i, of a ms] by (simp add: fields_tick e_def)
  qed
  show "destroyed (heap (innerLoop ms s) a) \<and> \<not> resolves a ms s" if de: "destroyed (heap s a)"
  proof -
    have 1: "destroyed (heap e a)" using marksD(3) [OF mk a0] de by (simp add: fields_tick)
    have "marks a (tick_begin ms s) (reached a ms s)" unfolding reached_def by (rule marks_pass)
    then have "destroyed (heap (reached a ms s) a)"
      using marksD(3) [OF _ a0] de by (simp add: fields_tick)
    then have "\<not> resolves a ms s" by (simp add: resolves_def advanced_def)
    then show ?thesis using 1 by (simp add: fields_tick e_def)
  qed
qed

lemma nextFrame_other:
  assumes ok: "op_ok (count s) x" and nt: "\<And>ms. x \<noteq> Tick ms"
  shows "resolved a (exec x s) = resolved a s"
    and "set (pending a s) \<subseteq> set (pending a (exec x s))"
    and "a < count s \<Longrightarrow> destroyed (heap s a) \<longrightarrow> a \<in> set (destroyedAnimations s) \<Longrightarrow>
         destroyed (heap (exec x s) a) \<longrightarrow> a \<in> set (destroyedAnimations (exec x s))"
    and "a < count s \<Longrightarrow> destroyed (heap s a) \<Longrightarrow>
         destroyed (heap (exec x s) a) \<and>
         (cbm_get (nextFrameCallbacks s) a = None \<longrightarrow>
            cbm_get (nextFrameCallbacks (exec x s)) a = None)"
proof -
  have "resolved a (exec x s) = resolved a s \<and>
      set (pending a s) \<subseteq> set (pending a (exec x s)) \<and>
      (a < count s \<longrightarrow> (destroyed (heap s a) \<longrightarrow> a \<in> set (destroyedAnimations s)) \<longrightarrow>
         destroyed (heap (exec x s) a) \<longrightarrow> a \<in> set (destroyedAnimations (exec x s))) \<and>
      (a < count s \<longrightarrow> destroyed (heap s a) \<longrightarrow>
         destroyed (heap (exec x s) a) \<and>
         (cbm_get (nextFrameCallbacks s) a = None \<longrightarrow>
            cbm_get (nextFrameCallbacks (exec x s)) a = None))"
  proof (cases x)
    case (Tick ms)
    then show ?thesis using nt by blast
  next
    case (Do act)
    have ok': "action_ok (count s) act" using ok Do by simp
    have c: "cbrel s (runAction act s)" using ok' by (rule cbrel_run(3))
    have m: "marks a s (runAction act s)" using ok' by (rule marks_run(3))
    have "resolved a (runAction act s) = resolved a s"
      using ok' by (simp add: resolved_def calls_run)
    moreover have "nextFrameCallbacks (runAction act s) = nextFrameCallbacks s"
      using c by (rule cbrel_nextFrameCallbacks)
    moreover have "a < count s \<Longrightarrow> destroyed (heap s a) \<longrightarrow> a \<in> set (destroyedAnimations s) \<Longrightarrow>
        destroyed (heap (runAction act s) a) \<longrightarrow> a \<in> set (destroyedAnimations (runAction act s))"
      using marksD(2) [OF m] marksD(4) [OF m] by auto
    moreover have "a < count s \<Longrightarrow> destroyed (heap s a) \<Longrightarrow> destroyed (heap (runAction act s) a)"
      using marksD(3) [OF m] by simp
    ultimately show ?thesis using Do by (simp add: pending_def)
  next
    case (CallNextFrame b)
    then show ?thesis
      by (auto simp: resolved_def calls_def pending_def nextFrame_def cbm_add_def cbm_get_def
          update_conv' or_nothing_def set_add_def split: option.splits)
  qed (simp_all add: resolved_def calls_def pending_def onFrame_def onComplete_def onDestroy_def
      waitDestroy_def waitCompletion_def upd_def)
  then show "resolved a (exec x s) = resolved a s"
    and "set (pending a s) \<subseteq> set (pending a (exec x s))"
    and "a < count s \<Longrightarrow> destroyed (heap s a) \<longrightarrow> a \<in> set (destroyedAnimations s) \<Longrightarrow>
         destroyed (heap (exec x s) a) \<longrightarrow> a \<in> set (destroyedAnimations (exec x s))"
    and "a < count s \<Longrightarrow> destroyed (heap s a) \<Longrightarrow>
         destroyed (heap (exec x s) a) \<and>
         (cbm_get (nextFrameCallbacks s) a = None \<longrightarrow>
            cbm_get (nextFrameCallbacks (exec x s)) a = None)"
    by simp_all
qed

text \<open>
  \<open>waiting a ops s\<close>: along the run of \<open>ops\<close> from \<open>s\<close> no tick resolves the next-frame
  promises of \<open>a\<close> and no tick ends with \<open>a\<close> destroyed. The other calls are free.
\<close>

fun waiting :: "aid \<Rightarrow> op list \<Rightarrow> state \<Rightarrow> bool" where
  "waiting a [] s = True"
| "waiting a (x # xs) s =
     ((case x of
         Tick ms \<Rightarrow> \<not> resolves a ms s \<and> \<not> destroyed (heap (innerLoop ms s) a)
       | _ \<Rightarrow> True) \<and>
      waiting a xs (if op_ok (count s) x then exec x s else s))"

lemma waiting_run:
  assumes "invar s" "a < count s" "waiting a mid s"
    "destroyed (heap s a) \<longrightarrow> a \<in> set (destroyedAnimations s)"
  shows "set (pending a s) \<subseteq> set (pending a (run mid s)) \<and>
         resolved a (run mid s) = resolved a s \<and> a < count (run mid s) \<and>
         (destroyed (heap (run mid s) a) \<longrightarrow> a \<in> set (destroyedAnimations (run mid s)))"
  using assms
proof (induction mid arbitrary: s)
  case Nil
  then show ?case by simp
next
  case (Cons x mid)
  show ?case
  proof (cases "op_ok (count s) x")
    case False
    then show ?thesis using Cons by (simp add: Let_def)
  next
    case True
    define s' where "s' = exec x s"
    have i': "invar s'" unfolding s'_def using Cons.prems(1) True by (rule inv_exec)
    have a': "a < count s'" using count_exec [OF True] Cons.prems(2) by (simp add: s'_def)
    have wt: "waiting a mid s'" using Cons.prems(3) True by (simp add: s'_def)
    have st: "set (pending a s) \<subseteq> set (pending a s') \<and> resolved a s' = resolved a s \<and>
        (destroyed (heap s' a) \<longrightarrow> a \<in> set (destroyedAnimations s'))"
    proof (cases x)
      case (Tick ms)
      have n: "\<not> resolves a ms s" "\<not> destroyed (heap s' a)"
        using Cons.prems(3) Tick by (simp_all add: s'_def)
      then show ?thesis
        using nextFrame_tick(2,3) [OF Cons.prems(1,2) n(1)] by (simp add: s'_def Tick pending_def)
    qed (use nextFrame_other(1,2,3) [OF True, of a] Cons.prems(2,4) in \<open>simp_all add: s'_def\<close>)
    then have al: "destroyed (heap s' a) \<longrightarrow> a \<in> set (destroyedAnimations s')" by simp
    show ?thesis
      using Cons.IH [OF i' a' wt al] st True by (auto simp: s'_def)
  qed
qed

text \<open>Once an instance is destroyed and has no next-frame callback left, none is invoked
  for it any more.\<close>

lemma gone_run:
  assumes "invar s" "a < count s" "destroyed (heap s a)"
    "cbm_get (nextFrameCallbacks s) a = None"
  shows "resolved a (run later s) = resolved a s"
  using assms
proof (induction later arbitrary: s)
  case Nil
  show ?case by simp
next
  case (Cons x later)
  show ?case
  proof (cases "op_ok (count s) x")
    case False
    then show ?thesis using Cons by simp
  next
    case True
    define s' where "s' = exec x s"
    have i': "invar s'" unfolding s'_def using Cons.prems(1) True by (rule inv_exec)
    have a': "a < count s'" using count_exec [OF True] Cons.prems(2) by (simp add: s'_def)
    have st: "resolved a s' = resolved a s \<and> destroyed (heap s' a) \<and>
        cbm_get (nextFrameCallbacks s') a = None"
    proof (cases x)
      case (Tick ms)
      have n: "destroyed (heap (innerLoop ms s) a)" "\<not> resolves a ms s"
        using nextFrame_tick(6) [OF Cons.prems(1,2,3), of ms] by simp_all
      show ?thesis
        using nextFrame_tick(2,4) [OF Cons.prems(1,2) n(2)] n(1) Cons.prems(4)
        by (simp add: s'_def Tick)
    qed (use nextFrame_other(1,4) [OF True, of a] Cons.prems(2,3,4) in \<open>simp_all add: s'_def\<close>)
    show ?thesis
      using Cons.IH [OF i' a'] st True by (simp add: s'_def)
  qed
qed

text \<open>
  C3, as stated, fails on \<open>dropped_promise\<close>: the callback registered by \<open>nextFrame()\<close>
  on a live instance is deleted by \<open>destroyAnimation\<close> when the instance is destroyed
  before its next advance; the tick invokes nothing and the registry entry is gone.
\<close>

theorem next_frame_callback_discarded:
  "cbm_get (nextFrameCallbacks dropped_promise) 0 = Some [Resolve 0] \<and>
   cbm_get (nextFrameCallbacks (innerLoop 16 dropped_promise)) 0 = None \<and>
   trace (innerLoop 16 dropped_promise) = []"
  unfolding dropped_promise_def by code_simp

text \<open>
  C3, amended. Take any reachable state and an instance \<open>a\<close> of it. If \<open>a\<close> is destroyed,
  \<open>nextFrame()\<close> returns \<open>null\<close> and changes nothing. If \<open>a\<close> is live, \<open>nextFrame()\<close>
  returns a new promise and registers its \<open>resolve\<close> function \<open>c\<close>. Let the run go on with
  any calls and ticks, as long as no tick resolves (advances \<open>a\<close> and leaves its time
  at zero or more) and no tick ends with \<open>a\<close> destroyed: then \<open>c\<close> is still registered and
  no next-frame callback of \<open>a\<close> has been invoked. In the tick after that:
  if it resolves, the registered callbacks of \<open>a\<close>, \<open>c\<close> among them, are each invoked,
  in order, and the registry entry is empty; if it does not and \<open>a\<close> is destroyed at
  its end, the entry is emptied without any invocation, and no next-frame callback of
  \<open>a\<close> is invoked in any further run either: the promise never resolves; if it does
  not and \<open>a\<close> is still live, the registered callbacks are as they were.
\<close>

theorem nextFrame_resolution:
  "a < count (run ops init) \<longrightarrow>
     (destroyed (heap (run ops init) a) \<longrightarrow> nextFrame a (run ops init) = (None, run ops init)) \<and>
     (\<not> destroyed (heap (run ops init) a) \<and> waiting a mid (snd (nextFrame a (run ops init))) \<longrightarrow>
        (let c = Resolve (closures (run ops init));
             s = run mid (snd (nextFrame a (run ops init)));
             s' = innerLoop ms s
         in fst (nextFrame a (run ops init)) = Some (closures (run ops init)) \<and>
            c \<in> set (pending a s) \<and>
            resolved a s = resolved a (run ops init) \<and>
            (if resolves a ms s
             then resolved a s' = resolved a s @ pending a s \<and>
                  Call OnNextFrame a c \<in> set (trace s') \<and> pending a s' = []
             else resolved a s' = resolved a s \<and>
                  (if destroyed (heap s' a)
                   then pending a s' = [] \<and> resolved a (run later s') = resolved a s'
                   else pending a s' = pending a s))))"
proof (intro impI conjI)
  assume "destroyed (heap (run ops init) a)"
  then show "nextFrame a (run ops init) = (None, run ops init)" by (simp add: nextFrame_def)
next
  define s0 where "s0 = run ops init"
  define c where "c = Resolve (closures s0)"
  define s1 where "s1 = snd (nextFrame a s0)"
  define s where "s = run mid s1"
  define s' where "s' = innerLoop ms s"
  assume a0: "a < count (run ops init)"
    and h: "\<not> destroyed (heap (run ops init) a) \<and> waiting a mid (snd (nextFrame a (run ops init)))"
  have i0: "invar s0" unfolding s0_def using inv_init by (rule inv_run)
  have l0: "\<not> destroyed (heap s0 a)" and wt: "waiting a mid s1"
    using h by (simp_all add: s0_def s1_def)
  have e1: "s1 = exec (CallNextFrame a) s0" by (simp add: s1_def)
  have ok: "op_ok (count s0) (CallNextFrame a)" using a0 by (simp add: s0_def)
  have i1: "invar s1" unfolding e1 using i0 ok by (rule inv_exec)
  have a1: "a < count s1" using a0 by (simp add: s1_def s0_def nextFrame_def)
  have 1: "fst (nextFrame a s0) = Some (closures s0)" using l0 by (simp add: nextFrame_def)
  have c1: "c \<in> set (pending a s1)"
    using l0
    by (auto simp: c_def s1_def pending_def nextFrame_def cbm_add_def cbm_get_def update_conv'
        or_nothing_def set_add_def split: option.splits)
  have r1: "resolved a s1 = resolved a s0"
    unfolding e1 by (rule nextFrame_other(1) [OF ok]) simp
  have l1: "destroyed (heap s1 a) \<longrightarrow> a \<in> set (destroyedAnimations s1)"
    using l0 by (simp add: s1_def nextFrame_def)
  note wr = waiting_run [OF i1 a1 wt l1, folded s_def]
  have 2: "c \<in> set (pending a s)" using wr c1 by blast
  have 3: "resolved a s = resolved a s0" using wr r1 by simp
  have i: "invar s" unfolding s_def using i1 by (rule inv_run)
  have i': "invar s'" unfolding s'_def using i by (rule inv_innerLoop)
  have as: "a < count s" using wr by simp
  have as': "a < count s'" using as count_innerLoop [of s ms] by (simp add: s'_def)
  have al: "destroyed (heap s a) \<longrightarrow> a \<in> set (destroyedAnimations s)" using wr by simp
  have 4: "resolved a s' = resolved a s @ pending a s \<and>
      Call OnNextFrame a c \<in> set (trace s') \<and> pending a s' = []" if r: "resolves a ms s"
  proof -
    have p: "resolved a s' = resolved a s @ pending a s"
      "cbm_get (nextFrameCallbacks s') a = None"
      using nextFrame_tick(1) [OF i as r] by (simp_all add: s'_def)
    have "c \<in> set (resolved a s')" using p(1) 2 by simp
    then have "(a, c) \<in> set (calls OnNextFrame s')" by (auto simp: resolved_def)
    then have "Call OnNextFrame a c \<in> set (trace s')" by (simp add: calls_mem)
    then show ?thesis using p by (simp add: pending_def or_nothing_def)
  qed
  have 5: "resolved a s' = resolved a s" if "\<not> resolves a ms s"
    using nextFrame_tick(2) [OF i as that] by (simp add: s'_def)
  have 6: "pending a s' = [] \<and> resolved a (run later s') = resolved a s'"
    if d: "destroyed (heap s' a)"
  proof -
    have n: "cbm_get (nextFrameCallbacks s') a = None"
      using nextFrame_tick(5) [OF i as al] d by (simp add: s'_def)
    show ?thesis
      using gone_run [OF i' as' d n] n by (simp add: pending_def or_nothing_def)
  qed
  have 7: "pending a s' = pending a s" if "\<not> resolves a ms s" "\<not> destroyed (heap s' a)"
    using nextFrame_tick(3) [OF i as that(1)] that(2) by (simp add: s'_def pending_def)
  show "let c = Resolve (closures (run ops init));
             s = run mid (snd (nextFrame a (run ops init)));
             s' = innerLoop ms s
         in fst (nextFrame a (run ops init)) = Some (closures (run ops init)) \<and>
            c \<in> set (pending a s) \<and>
            resolved a s = resolved a (run ops init) \<and>
            (if resolves a ms s
             then resolved a s' = resolved a s @ pending a s \<and>
                  Call OnNextFrame a c \<in> set (trace s') \<and> pending a s' = []
             else resolved a s' = resolved a s \<and>
                  (if destroyed (heap s' a)
                   then pending a s' = [] \<and> resolved a (run later s') = resolved a s'
                   else pending a s' = pending a s))"
    unfolding Let_def s0_def [symmetric] s1_def [symmetric] s_def [symmetric] s'_def [symmetric]
      c_def [symmetric]
    using 1 2 3 4 5 6 7 by simp
qed

text \<open>A loop on which \<open>nextFrame()\<close> is about to be called.\<close>

definition frame_run :: state where
  "frame_run = run [Do (Loop (User 0 [] False))] init"

theorem nextFrame_resolution_witness:
  "0 < count frame_run \<and> \<not> destroyed (heap frame_run 0) \<and>
   waiting 0 [Do (SetPaused 0 True), Tick 16, Do (SetPaused 0 False)]
     (snd (nextFrame 0 frame_run)) \<and>
   resolves 0 32
     (run [Do (SetPaused 0 True), Tick 16, Do (SetPaused 0 False)] (snd (nextFrame 0 frame_run))) \<and>
   fst (nextFrame 0 frame_run) = Some 0 \<and>
   Call OnNextFrame 0 (Resolve 0) \<in> set (trace (innerLoop 32
     (run [Do (SetPaused 0 True), Tick 16, Do (SetPaused 0 False)]
        (snd (nextFrame 0 frame_run))))) \<and>
   pending 0 (innerLoop 32
     (run [Do (SetPaused 0 True), Tick 16, Do (SetPaused 0 False)]
        (snd (nextFrame 0 frame_run)))) = [] \<and>
   waiting 0 [Do (Destroy 0)] (snd (nextFrame 0 frame_run)) \<and>
   \<not> resolves 0 16 (run [Do (Destroy 0)] (snd (nextFrame 0 frame_run))) \<and>
   destroyed (heap (innerLoop 16 (run [Do (Destroy 0)] (snd (nextFrame 0 frame_run)))) 0) \<and>
   Resolve 0 \<in> set (pending 0 (run [Do (Destroy 0)] (snd (nextFrame 0 frame_run)))) \<and>
   pending 0 (innerLoop 16 (run [Do (Destroy 0)] (snd (nextFrame 0 frame_run)))) = [] \<and>
   resolved 0 (run [Tick 32, Tick 48]
     (innerLoop 16 (run [Do (Destroy 0)] (snd (nextFrame 0 frame_run))))) = []"
proof -
  let ?mid = "[Do (SetPaused 0 True), Tick 16, Do (SetPaused 0 False)]"
  have h1: "0 < count frame_run" unfolding frame_run_def by code_simp
  have h2: "\<not> destroyed (heap frame_run 0)" unfolding frame_run_def by code_simp
  have h3: "waiting 0 ?mid (snd (nextFrame 0 frame_run))" unfolding frame_run_def by code_simp
  have h4: "resolves 0 32 (run ?mid (snd (nextFrame 0 frame_run)))"
    unfolding frame_run_def by code_simp
  have h5: "closures frame_run = 0" unfolding frame_run_def by code_simp
  have g3: "waiting 0 [Do (Destroy 0)] (snd (nextFrame 0 frame_run))"
    unfolding frame_run_def by code_simp
  have g4: "\<not> resolves 0 16 (run [Do (Destroy 0)] (snd (nextFrame 0 frame_run)))"
    unfolding frame_run_def by code_simp
  have g5: "destroyed (heap (innerLoop 16 (run [Do (Destroy 0)] (snd (nextFrame 0 frame_run)))) 0)"
    unfolding frame_run_def by code_simp
  have g6: "resolved 0 frame_run = []" unfolding frame_run_def by code_simp
  have a: "fst (nextFrame 0 frame_run) = Some 0 \<and>
     Call OnNextFrame 0 (Resolve 0) \<in> set (trace (innerLoop 32
       (run ?mid (snd (nextFrame 0 frame_run))))) \<and>
     pending 0 (innerLoop 32 (run ?mid (snd (nextFrame 0 frame_run)))) = []"
    using nextFrame_resolution [of 0 "[Do (Loop (User 0 [] False))]" ?mid 32 "[]",
        folded frame_run_def] h1 h2 h3 h4 h5
    by (simp add: Let_def)
  have b: "Resolve 0 \<in> set (pending 0 (run [Do (Destroy 0)] (snd (nextFrame 0 frame_run)))) \<and>
     pending 0 (innerLoop 16 (run [Do (Destroy 0)] (snd (nextFrame 0 frame_run)))) = [] \<and>
     resolved 0 (run [Tick 32, Tick 48]
       (innerLoop 16 (run [Do (Destroy 0)] (snd (nextFrame 0 frame_run))))) = []"
    using nextFrame_resolution [of 0 "[Do (Loop (User 0 [] False))]" "[Do (Destroy 0)]" 16
        "[Tick 32, Tick 48]", folded frame_run_def] h1 h2 g3 g4 g5 g6 h5
    by (simp add: Let_def)
  show ?thesis using a b h1 h2 h3 h4 g3 g4 g5 by simp
qed

end
